theory Spec2Isabelle
  imports Complex_Main "HOL-Library.AList"
begin

section \<open>find\_growth\_directories.py: directories whose size has grown\<close>

text \<open>
  The script reads two reports of directory sizes (old, new), turns each into a
  dictionary from directory name to size, and prints every directory of the new
  report whose size exceeds its old size, with the growth.

  Text is a list of 8-bit characters, each standing for the code point of the same
  number (U+0000 to U+00FF). A file system maps a file name to the decoded text of
  the file, or to \<open>None\<close> when \<open>open\<close> or \<open>readlines\<close> raises.
\<close>

subsection \<open>Strings: \<open>readlines\<close>, \<open>split\<close>, \<open>join\<close>\<close>

definition LF :: char where
  "LF = CHR 0x0A"

definition CR :: char where
  "CR = CHR 0x0D"

text \<open>
  Text mode with the default \<open>newline=None\<close>: each of CR LF, CR and LF ends a line
  and is handed to the program as LF. The flag says that the previous character was CR.
\<close>

fun universal_newlines :: "bool \<Rightarrow> string \<Rightarrow> string" where
  "universal_newlines after_cr [] = []"
| "universal_newlines after_cr (c # cs) =
     (if c = CR then LF # universal_newlines True cs
      else if c = LF then (if after_cr then universal_newlines False cs
                           else LF # universal_newlines False cs)
      else c # universal_newlines False cs)"

text \<open>\<open>readlines\<close>: the lines, each with its LF; a last line without LF is kept.\<close>

fun lines_from :: "string \<Rightarrow> string \<Rightarrow> string list" where
  "lines_from cur [] = (if cur = [] then [] else [cur])"
| "lines_from cur (c # cs) =
     (if c = LF then (cur @ [c]) # lines_from [] cs else lines_from (cur @ [c]) cs)"

definition readlines :: "string \<Rightarrow> string list" where
  "readlines text = lines_from [] (universal_newlines False text)"

text \<open>
  The whitespace of \<open>str.split()\<close>: the code points below 256 for which
  \<open>str.isspace\<close> holds (TAB, LF, VT, FF, CR, FS, GS, RS, US, space, NEL, NBSP).
\<close>

definition is_space :: "char \<Rightarrow> bool" where
  "is_space c = (let n = (of_char c :: nat) in
     (9 \<le> n \<and> n \<le> 13) \<or> (28 \<le> n \<and> n \<le> 32) \<or> n = 133 \<or> n = 160)"

text \<open>
  \<open>s.split()\<close> with no argument: the maximal runs of non-whitespace characters,
  in order; no empty token. The first argument is the token being read.
\<close>

fun split_from :: "string \<Rightarrow> string \<Rightarrow> string list" where
  "split_from tok [] = (if tok = [] then [] else [tok])"
| "split_from tok (c # cs) =
     (if is_space c then (if tok = [] then split_from [] cs else tok # split_from [] cs)
      else split_from (tok @ [c]) cs)"

definition split :: "string \<Rightarrow> string list" where
  "split s = split_from [] s"

text \<open>\<open>sep.join(xs)\<close>.\<close>

fun join :: "string \<Rightarrow> string list \<Rightarrow> string" where
  "join sep [] = []"
| "join sep [x] = x"
| "join sep (x # y # ys) = x @ sep @ join sep (y # ys)"

subsection \<open>Floats: binary64 with exact rational values\<close>

text \<open>
  A Python float is an IEEE 754 binary64 number. A finite one is kept as the rational
  it denotes (\<open>Fin 0\<close> is \<open>+0.0\<close>, \<open>NegZero\<close> is \<open>-0.0\<close>); every operation computes
  the exact result and rounds it to the nearest binary64 number, ties to even.
\<close>

datatype pyfloat = Fin rat | NegZero | PInf | NInf | NaN

text \<open>The number of digits of \<open>n\<close> in base \<open>b\<close> (0 for \<open>n \<le> 0\<close>).\<close>

function ndigits :: "int \<Rightarrow> int \<Rightarrow> int" where
  "ndigits b n = (if n \<le> 0 \<or> b < 2 then 0 else 1 + ndigits b (n div b))"
  by pat_completeness auto
termination
proof (relation "measure (\<lambda>(b, n). nat n)")
  show "wf (measure (\<lambda>(b, n). nat n))" by simp
next
  fix b n :: int
  assume "\<not> (n \<le> 0 \<or> b < 2)"
  then have "0 < n" and "2 \<le> b" by simp_all
  then have "n div b < n" by (simp add: int_div_less_self)
  with \<open>0 < n\<close> show "((b, n div b), (b, n)) \<in> measure (\<lambda>(b, n). nat n)"
    by (simp add: pos_imp_zdiv_nonneg_iff)
qed

declare ndigits.simps [simp del]

text \<open>For \<open>q > 0\<close>: the integer \<open>e\<close> with \<open>b ^ e \<le> q < b ^ (e + 1)\<close>.\<close>

definition floor_log :: "int \<Rightarrow> rat \<Rightarrow> int" where
  "floor_log b q = (if 1 \<le> q then ndigits b \<lfloor>q\<rfloor> - 1
                    else - ndigits b (\<lceil>1 / q\<rceil> - 1))"

definition pw :: "rat \<Rightarrow> int \<Rightarrow> rat" where
  "pw b i = (if 0 \<le> i then b ^ nat i else 1 / b ^ nat (- i))"

definition round_half_even :: "rat \<Rightarrow> int" where
  "round_half_even x = (let f = \<lfloor>x\<rfloor>; r = x - of_int f in
     if r < 1 / 2 then f else if 1 / 2 < r then f + 1 else if even f then f else f + 1)"

text \<open>
  Rounding a positive rational to binary64: 53 significant bits, exponents from
  \<open>-1022\<close> (below that the spacing of the subnormal numbers) to \<open>1023\<close>; \<open>None\<close> is
  overflow, a rounded value of \<open>2 ^ 1024\<close> or more.
\<close>

definition round_double_pos :: "rat \<Rightarrow> rat option" where
  "round_double_pos q = (let e = max (floor_log 2 q) (- 1022); ulp = pw 2 (e - 52);
       r = of_int (round_half_even (q / ulp)) * ulp
     in if 0 < r \<and> 1024 \<le> floor_log 2 r then None else Some r)"

definition to_double :: "rat \<Rightarrow> pyfloat" where
  "to_double q =
     (if q = 0 then Fin 0
      else if 0 < q then (case round_double_pos q of None \<Rightarrow> PInf | Some r \<Rightarrow> Fin r)
      else (case round_double_pos (- q) of None \<Rightarrow> NInf
            | Some r \<Rightarrow> if r = 0 then NegZero else Fin (- r)))"

fun fneg :: "pyfloat \<Rightarrow> pyfloat" where
  "fneg (Fin q) = (if q = 0 then NegZero else Fin (- q))"
| "fneg NegZero = Fin 0"
| "fneg PInf = NInf"
| "fneg NInf = PInf"
| "fneg NaN = NaN"

fun fadd :: "pyfloat \<Rightarrow> pyfloat \<Rightarrow> pyfloat" where
  "fadd NaN y = NaN"
| "fadd x NaN = NaN"
| "fadd PInf NInf = NaN"
| "fadd NInf PInf = NaN"
| "fadd PInf y = PInf"
| "fadd NInf y = NInf"
| "fadd x PInf = PInf"
| "fadd x NInf = NInf"
| "fadd NegZero y = y"
| "fadd x NegZero = x"
| "fadd (Fin a) (Fin b) = to_double (a + b)"

text \<open>\<open>x - y\<close> on floats.\<close>

definition fsub :: "pyfloat \<Rightarrow> pyfloat \<Rightarrow> pyfloat" where
  "fsub x y = fadd x (fneg y)"

text \<open>\<open>x > 0\<close>: false for both zeros, the negative numbers and NaN.\<close>

fun fgt0 :: "pyfloat \<Rightarrow> bool" where
  "fgt0 (Fin q) = (0 < q)"
| "fgt0 PInf = True"
| "fgt0 NegZero = False"
| "fgt0 NInf = False"
| "fgt0 NaN = False"

subsection \<open>\<open>float(s)\<close>: text to float\<close>

definition is_digit :: "char \<Rightarrow> bool" where
  "is_digit c = (48 \<le> (of_char c :: nat) \<and> (of_char c :: nat) \<le> 57)"

definition digit_value :: "char \<Rightarrow> int" where
  "digit_value c = int (of_char c) - 48"

definition digits_value :: "string \<Rightarrow> int" where
  "digits_value ds = foldl (\<lambda>a c. 10 * a + digit_value c) 0 ds"

definition to_lower :: "char \<Rightarrow> char" where
  "to_lower c = (let n = (of_char c :: nat) in
     if 65 \<le> n \<and> n \<le> 90 then char_of (n + 32) else c)"

text \<open>
  Before parsing, a character from 127 on becomes a space when it is whitespace and
  \<open>?\<close> otherwise (no code point from 128 to 255 is a decimal digit).
\<close>

definition to_ascii :: "char \<Rightarrow> char" where
  "to_ascii c = (let n = (of_char c :: nat) in
     if n < 127 then c else if n = 133 \<or> n = 160 then CHR '' '' else CHR ''?'')"

text \<open>
  Underscores: allowed only between two digits, and removed. The first argument is
  the previous character (NUL at the start).
\<close>

fun remove_underscores :: "char \<Rightarrow> string \<Rightarrow> string option" where
  "remove_underscores prev [] = (if prev = CHR ''_'' then None else Some [])"
| "remove_underscores prev (c # cs) =
     (if c = CHR ''_'' then (if is_digit prev then remove_underscores c cs else None)
      else if prev = CHR ''_'' \<and> \<not> is_digit c then None
      else map_option ((#) c) (remove_underscores c cs))"

text \<open>The whitespace that \<open>float\<close> strips at both ends: TAB, LF, VT, FF, CR, space.\<close>

definition is_ascii_space :: "char \<Rightarrow> bool" where
  "is_ascii_space c = (let n = (of_char c :: nat) in (9 \<le> n \<and> n \<le> 13) \<or> n = 32)"

definition strip :: "string \<Rightarrow> string" where
  "strip s = rev (dropWhile is_ascii_space (rev (dropWhile is_ascii_space s)))"

definition parse_sign :: "string \<Rightarrow> bool \<times> string" where
  "parse_sign s = (case s of [] \<Rightarrow> (False, [])
     | c # cs \<Rightarrow> if c = CHR ''-'' then (True, cs) else if c = CHR ''+'' then (False, cs)
                else (False, s))"

text \<open>
  The decimal grammar: digits, an optional point and digits, at least one digit in
  all; then an optional exponent \<open>e\<close> or \<open>E\<close>, sign, at least one digit. The result
  is the pair \<open>(m, e)\<close> of the number \<open>m * 10 ^ e\<close>.
\<close>

definition parse_decimal :: "string \<Rightarrow> (int \<times> int) option" where
  "parse_decimal s =
     (let ip = takeWhile is_digit s; r1 = dropWhile is_digit s;
          has_point = (r1 \<noteq> [] \<and> hd r1 = CHR ''.'');
          fp = (if has_point then takeWhile is_digit (tl r1) else []);
          r2 = (if has_point then dropWhile is_digit (tl r1) else r1);
          m = digits_value (ip @ fp)
      in if ip = [] \<and> fp = [] then None
         else if r2 = [] then Some (m, - int (length fp))
         else if hd r2 = CHR ''e'' \<or> hd r2 = CHR ''E'' then
           (let (neg, r3) = parse_sign (tl r2); ed = takeWhile is_digit r3
            in if ed = [] \<or> dropWhile is_digit r3 \<noteq> [] then None
               else Some (m, (if neg then - digits_value ed else digits_value ed)
                             - int (length fp)))
         else None)"

definition parse_float :: "string \<Rightarrow> pyfloat option" where
  "parse_float s =
     (let (neg, r) = parse_sign s; w = map to_lower r
      in if w = ''inf'' \<or> w = ''infinity'' then Some (if neg then NInf else PInf)
         else if w = ''nan'' then Some NaN
         else (case parse_decimal r of None \<Rightarrow> None
               | Some (m, e) \<Rightarrow>
                   Some (if m = 0 then (if neg then NegZero else Fin 0)
                         else to_double ((if neg then - 1 else 1) * of_int m * pw 10 e))))"

text \<open>\<open>float(s)\<close> for a string \<open>s\<close>; \<open>None\<close> is ValueError.\<close>

definition float_of_string :: "string \<Rightarrow> pyfloat option" where
  "float_of_string s =
     (case remove_underscores (CHR 0x00) (map to_ascii s) of None \<Rightarrow> None
      | Some t \<Rightarrow> parse_float (strip t))"

subsection \<open>\<open>'{:.2}'.format(x)\<close>: float to text\<close>

definition digit_char :: "int \<Rightarrow> char" where
  "digit_char d = char_of (48 + nat d)"

function nat_digits :: "int \<Rightarrow> string" where
  "nat_digits n = (if n < 10 then [digit_char n] else nat_digits (n div 10) @ [digit_char (n mod 10)])"
  by pat_completeness auto
termination
  by (relation "measure nat") auto

declare nat_digits.simps [simp del]

text \<open>The exponent of the scientific notation: a sign and at least two digits.\<close>

definition format_exp :: "int \<Rightarrow> string" where
  "format_exp e = (if e < 0 then ''-'' else ''+'') @
     (let ds = nat_digits \<bar>e\<bar> in if length ds < 2 then CHR ''0'' # ds else ds)"

text \<open>
  Two significant decimal digits of \<open>q > 0\<close>, ties to even: the pair \<open>(m, decpt)\<close>
  with \<open>10 \<le> m < 100\<close> denotes \<open>0.m * 10 ^ decpt\<close>.
\<close>

definition round_sig2 :: "rat \<Rightarrow> int \<times> int" where
  "round_sig2 q = (let d = floor_log 10 q + 1; m = round_half_even (q / pw 10 (d - 2))
     in if m = 100 then (10, d + 1) else (m, d))"

text \<open>
  The general format with precision 2 that a format specification without a type
  selects for a float: trailing zeros are dropped; scientific notation unless
  \<open>-4 < decpt \<le> 1\<close>; fixed notation has at least one digit after the point.
\<close>

definition format_g2_pos :: "rat \<Rightarrow> string" where
  "format_g2_pos q = (let (m, decpt) = round_sig2 q; d1 = digit_char (m div 10);
       frac = (if m mod 10 = 0 then [] else [digit_char (m mod 10)])
     in if decpt \<le> - 4 \<or> 1 < decpt then
          d1 # (if frac = [] then [] else CHR ''.'' # frac) @ ''e'' @ format_exp (decpt - 1)
        else if decpt = 1 then d1 # CHR ''.'' # (if frac = [] then ''0'' else frac)
        else ''0.'' @ replicate (nat (- decpt)) (CHR ''0'') @ d1 # frac)"

fun format_g2 :: "pyfloat \<Rightarrow> string" where
  "format_g2 (Fin q) = (if q = 0 then ''0.0'' else if q < 0 then CHR ''-'' # format_g2_pos (- q)
                        else format_g2_pos q)"
| "format_g2 NegZero = ''-0.0''"
| "format_g2 PInf = ''inf''"
| "format_g2 NInf = ''-inf''"
| "format_g2 NaN = ''nan''"

subsection \<open>The script\<close>

datatype error = ReadError | ValueError | IndexError

type_synonym size_report = "(string \<times> pyfloat) list"

type_synonym file_system = "string \<Rightarrow> string option"

text \<open>
  A dictionary is the list of its items in insertion order, with distinct keys:
  storing under a new key appends an item, storing under a present key replaces the
  value where the item stands (\<open>AList.update\<close>).

  The key and the value that the comprehension of \<open>into_dict\<close> computes from the
  tokens \<open>s\<close> of one line: \<open>' '.join(s[:-1])\<close> and \<open>float(s[-1])\<close>. On no token
  \<open>s[-1]\<close> raises IndexError; \<open>float\<close> raises ValueError.
\<close>

definition entry_of :: "string list \<Rightarrow> error + (string \<times> pyfloat)" where
  "entry_of s = (let key = join '' '' (butlast s) in
     if s = [] then Inl IndexError
     else (case float_of_string (last s) of None \<Rightarrow> Inl ValueError
           | Some v \<Rightarrow> Inr (key, v)))"

fun dict_of :: "string list list \<Rightarrow> size_report \<Rightarrow> error + size_report" where
  "dict_of [] d = Inr d"
| "dict_of (s # ss) d =
     (case entry_of s of Inl e \<Rightarrow> Inl e
      | Inr (k, v) \<Rightarrow> dict_of ss (AList.update k v d))"

definition into_dict :: "file_system \<Rightarrow> string \<Rightarrow> error + size_report" where
  "into_dict fs file_name =
     (case fs file_name of None \<Rightarrow> Inl ReadError
      | Some text \<Rightarrow> dict_of (map split (readlines text)) [])"

text \<open>\<open>d.get(k, default)\<close>.\<close>

definition get :: "size_report \<Rightarrow> string \<Rightarrow> pyfloat \<Rightarrow> pyfloat" where
  "get d k dflt = (case map_of d k of None \<Rightarrow> dflt | Some v \<Rightarrow> v)"

text \<open>The line that \<open>print('{} {:.2}'.format(dir, growth))\<close> writes, without its LF.\<close>

definition print_line :: "string \<Rightarrow> pyfloat \<Rightarrow> string" where
  "print_line dir growth = dir @ '' '' @ format_g2 growth"

text \<open>
  The loop over \<open>newer.items()\<close>; the last argument is the list of the lines printed
  so far. The default \<open>0\<close> of \<open>get\<close> is an int, which the subtraction converts to
  \<open>+0.0\<close>.
\<close>

fun growth_loop :: "size_report \<Rightarrow> (string \<times> pyfloat) list \<Rightarrow> string list \<Rightarrow> string list" where
  "growth_loop older [] out = out"
| "growth_loop older ((dir, sz) # items) out =
     (let growth = fsub sz (get older dir (Fin 0))
      in growth_loop older items (if fgt0 growth then out @ [print_line dir growth] else out))"

datatype outcome = Exit int | Uncaught error

text \<open>
  A run: the lines printed on standard output, the text the script itself writes on
  standard error (the traceback of an uncaught exception is not modelled), and how the
  run ends. \<open>argv\<close> is \<open>sys.argv\<close>: the script's name and the positional arguments.
\<close>

record run =
  stdout :: "string list"
  stderr :: string
  outcome :: outcome

definition usage :: string where
  "usage = ''expected two file arguments: old new'' @ [LF]"

definition main :: "file_system \<Rightarrow> string list \<Rightarrow> run" where
  "main fs argv =
     (if length argv \<noteq> 3 then \<lparr>stdout = [], stderr = usage, outcome = Exit 1\<rparr>
      else (case drop (length argv - 2) argv of
        [old_name, new_name] \<Rightarrow>
          (case into_dict fs old_name of
             Inl e \<Rightarrow> \<lparr>stdout = [], stderr = [], outcome = Uncaught e\<rparr>
           | Inr older \<Rightarrow>
               (case into_dict fs new_name of
                  Inl e \<Rightarrow> \<lparr>stdout = [], stderr = [], outcome = Uncaught e\<rparr>
                | Inr newer \<Rightarrow>
                    \<lparr>stdout = growth_loop older newer [], stderr = [], outcome = Exit 0\<rparr>))
      | _ \<Rightarrow> \<lparr>stdout = [], stderr = [], outcome = Uncaught ValueError\<rparr>))"

text \<open>A file system for the examples: the files \<open>old\<close> and \<open>new\<close> with the given texts.\<close>

definition two_files :: "string \<Rightarrow> string \<Rightarrow> file_system" where
  "two_files old_text new_text name =
     (if name = ''old'' then Some old_text else if name = ''new'' then Some new_text else None)"

subsection \<open>Notions of the specification\<close>

text \<open>The keys of the lines of a report, in the order of the lines.\<close>

definition line_keys :: "string \<Rightarrow> string list" where
  "line_keys body = map (\<lambda>l. join '' '' (butlast (split l))) (readlines body)"

text \<open>A list without its repetitions, each element where it occurs first.\<close>

definition first_occurrences :: "'a list \<Rightarrow> 'a list" where
  "first_occurrences xs = rev (remdups (rev xs))"

text \<open>
  The order that the specification words: each element where it occurs last.
\<close>

definition last_occurrences :: "'a list \<Rightarrow> 'a list" where
  "last_occurrences xs = remdups xs"


section \<open>Properties\<close>

subsection \<open>Tokens, dictionaries and the loop\<close>

lemma split_from_tokens:
  "t \<in> set (split_from tok cs) \<Longrightarrow> \<forall>c \<in> set tok. \<not> is_space c \<Longrightarrow>
     t \<noteq> [] \<and> (\<forall>c \<in> set t. \<not> is_space c)"
proof (induction cs arbitrary: tok)
  case Nil
  then show ?case by (cases "tok = []") simp_all
next
  case (Cons c cs)
  show ?case
  proof (cases "is_space c")
    case True
    show ?thesis
    proof (cases "tok = []")
      case e: True
      with True Cons.prems have "t \<in> set (split_from [] cs)" by simp
      then show ?thesis using Cons.IH [of "[]"] by simp
    next
      case ne: False
      with True Cons.prems have "t = tok \<or> t \<in> set (split_from [] cs)" by simp
      then show ?thesis
      proof
        assume "t = tok"
        with ne Cons.prems(2) show ?thesis by simp
      next
        assume "t \<in> set (split_from [] cs)"
        then show ?thesis using Cons.IH [of "[]"] by simp
      qed
    qed
  next
    case False
    with Cons.prems have "t \<in> set (split_from (tok @ [c]) cs)" by simp
    moreover have "\<forall>x \<in> set (tok @ [c]). \<not> is_space x" using False Cons.prems(2) by simp
    ultimately show ?thesis using Cons.IH [of "tok @ [c]"] by blast
  qed
qed

lemma split_tokens: "t \<in> set (split s) \<Longrightarrow> t \<noteq> [] \<and> (\<forall>c \<in> set t. \<not> is_space c)"
  using split_from_tokens [of t "[]" s] by (simp add: split_def)

lemma dict_of_append:
  "dict_of (ss1 @ ss2) d = (case dict_of ss1 d of Inl e \<Rightarrow> Inl e | Inr d' \<Rightarrow> dict_of ss2 d')"
  by (induction ss1 arbitrary: d) (auto split: sum.splits)

lemma dict_of_fails:
  "s \<in> set ss \<Longrightarrow> entry_of s = Inl e \<Longrightarrow> \<exists>e'. dict_of ss d = Inl e'"
  by (induction ss arbitrary: d) (auto split: sum.splits)

lemma dict_of_entries:
  "dict_of ss d = Inr d' \<Longrightarrow>
     \<exists>es. map entry_of ss = map Inr es \<and> d' = fold (\<lambda>(k, v). AList.update k v) es d"
proof (induction ss arbitrary: d)
  case Nil
  then show ?case by simp
next
  case (Cons s ss)
  from Cons.prems obtain k v where e: "entry_of s = Inr (k, v)"
    and r: "dict_of ss (AList.update k v d) = Inr d'"
    by (cases "entry_of s") (auto split: prod.splits)
  from Cons.IH [OF r] obtain es where es: "map entry_of ss = map Inr es"
    "d' = fold (\<lambda>(k, v). AList.update k v) es (AList.update k v d)" by blast
  show ?case
  proof (intro exI conjI)
    show "map entry_of (s # ss) = map Inr ((k, v) # es)" using e es by simp
    show "d' = fold (\<lambda>(k, v). AList.update k v) ((k, v) # es) d" using es by simp
  qed
qed

lemma fold_update_distinct:
  "distinct (map fst d) \<Longrightarrow> distinct (map fst (fold (\<lambda>(k, v). AList.update k v) es d))"
proof (induction es arbitrary: d)
  case Nil
  then show ?case by simp
next
  case (Cons e es)
  obtain k v where e: "e = (k, v)" by (cases e)
  have "distinct (map fst (AList.update k v d))" using Cons.prems by (simp add: AList.distinct_update)
  from Cons.IH [OF this] show ?case by (simp add: e)
qed

lemma update_keys_set: "fst ` set (AList.update k v d) = insert k (fst ` set d)"
  by (induction d) auto

lemma fold_update_map_of:
  "map_of (fold (\<lambda>(k, v). AList.update k v) es d) k =
     (case map_of (rev es) k of None \<Rightarrow> map_of d k | Some v \<Rightarrow> Some v)"
proof (induction es arbitrary: d)
  case Nil
  then show ?case by simp
next
  case (Cons e es)
  obtain k' v' where e: "e = (k', v')" by (cases e)
  show ?case
    by (simp add: e Cons.IH AList.update_conv' map_add_def split: option.splits)
qed

lemma remdups_snoc: "remdups (xs @ [k]) = remdups [x \<leftarrow> xs. x \<noteq> k] @ [k]"
  by (induction xs) auto

lemma fold_update_keys:
  "map fst (fold (\<lambda>(k, v). AList.update k v) es d) =
     map fst d @ rev (remdups (rev [k \<leftarrow> map fst es. k \<notin> fst ` set d]))"
proof (induction es arbitrary: d)
  case Nil
  then show ?case by simp
next
  case (Cons e es)
  obtain k v where e: "e = (k, v)" by (cases e)
  have IH: "map fst (fold (\<lambda>(k, v). AList.update k v) es (AList.update k v d)) =
     map fst (AList.update k v d) @ rev (remdups (rev [x \<leftarrow> map fst es. x \<notin> insert k (fst ` set d)]))"
    using Cons.IH [of "AList.update k v d"] by (simp only: update_keys_set)
  show ?case
  proof (cases "k \<in> fst ` set d")
    case True
    then have "insert k (fst ` set d) = fst ` set d" by blast
    with True IH show ?thesis
      by (simp add: e AList.update_keys)
  next
    case False
    have "remdups (rev [x \<leftarrow> map fst es. x \<notin> fst ` set d] @ [k]) =
            remdups (rev [x \<leftarrow> [x \<leftarrow> map fst es. x \<notin> fst ` set d]. x \<noteq> k]) @ [k]"
      by (simp add: remdups_snoc rev_filter)
    moreover have "(\<lambda>x. x \<notin> fst ` set d \<and> x \<noteq> k) = (\<lambda>x. x \<noteq> k \<and> x \<notin> fst ` set d)"
      by auto
    ultimately show ?thesis using False IH
      by (simp add: e AList.update_keys)
  qed
qed


lemma growth_loop_eq:
  "growth_loop older items out =
     out @ map (\<lambda>(dir, sz). print_line dir (fsub sz (get older dir (Fin 0))))
            (filter (\<lambda>(dir, sz). fgt0 (fsub sz (get older dir (Fin 0)))) items)"
  by (induction items arbitrary: out) (auto simp: Let_def)

lemma main_three:
  "main fs [prog, a, b] =
     (case into_dict fs a of
        Inl e \<Rightarrow> \<lparr>stdout = [], stderr = [], outcome = Uncaught e\<rparr>
      | Inr older \<Rightarrow>
          (case into_dict fs b of
             Inl e \<Rightarrow> \<lparr>stdout = [], stderr = [], outcome = Uncaught e\<rparr>
           | Inr newer \<Rightarrow>
               \<lparr>stdout = growth_loop older newer [], stderr = [], outcome = Exit 0\<rparr>))"
proof -
  have d: "drop (length [prog, a, b] - 2) [prog, a, b] = [a, b]" by simp
  have l: "(length [prog, a, b] \<noteq> 3) = False" by simp
  show ?thesis unfolding main_def l d by (simp only: list.case if_False)
qed

lemma distinct_filter_key:
  "distinct (map fst d) \<Longrightarrow> map_of d k = Some v \<Longrightarrow> filter (\<lambda>e. fst e = k) d = [(k, v)]"
proof (induction d)
  case Nil
  then show ?case by simp
next
  case (Cons e d)
  show ?case
  proof (cases "fst e = k")
    case True
    with Cons.prems have "e = (k, v)" by (cases e) simp
    moreover from Cons.prems True have "k \<notin> fst ` set d" by auto
    then have "filter (\<lambda>e. fst e = k) d = []" by (auto simp: filter_empty_conv)
    ultimately show ?thesis by simp
  next
    case False
    with Cons show ?thesis by (cases e) auto
  qed
qed

lemma map_Inr_append:
  "map f (xs @ x # ys) = map Inr es \<Longrightarrow>
     \<exists>es1 e es2. es = es1 @ e # es2 \<and> map f xs = map Inr es1 \<and> f x = Inr e \<and> map f ys = map Inr es2"
proof (induction xs arbitrary: es)
  case Nil
  then obtain e es2 where "es = e # es2" "f x = Inr e" "map f ys = map Inr es2"
    by (cases es) auto
  then show ?case by (intro exI [of _ "[]"] exI [of _ e] exI [of _ es2]) simp
next
  case (Cons a xs)
  then obtain e0 es' where es: "es = e0 # es'" and a: "f a = Inr e0"
    and r: "map f (xs @ x # ys) = map Inr es'"
    by (cases es) auto
  from Cons.IH [OF r] obtain es1 e es2 where "es' = es1 @ e # es2" "map f xs = map Inr es1"
    "f x = Inr e" "map f ys = map Inr es2" by blast
  with es a show ?case by (intro exI [of _ "e0 # es1"] exI [of _ e] exI [of _ es2]) simp
qed


lemma dict_lookup_last:
  assumes d: "dict_of (ss1 @ s # ss2) [] = Inr d"
    and s: "entry_of s = Inr (k, v)"
    and later: "\<forall>s' \<in> set ss2. \<forall>v'. entry_of s' \<noteq> Inr (k, v')"
  shows "map_of d k = Some v \<and> distinct (map fst d)"
proof -
  from dict_of_entries [OF d] obtain es where es: "map entry_of (ss1 @ s # ss2) = map Inr es"
    and dd: "d = fold (\<lambda>(k, v). AList.update k v) es []" by blast
  from map_Inr_append [OF es] obtain es1 e es2 where sp: "es = es1 @ e # es2"
    and e: "entry_of s = Inr e" and e2: "map entry_of ss2 = map Inr es2" by blast
  from e s have ekv: "e = (k, v)" by simp
  have "k \<notin> fst ` set es2"
  proof
    assume "k \<in> fst ` set es2"
    then obtain v' where "(k, v') \<in> set es2" by auto
    then have "Inr (k, v') \<in> set (map entry_of ss2)" using e2 by simp
    then obtain s' where "s' \<in> set ss2" "entry_of s' = Inr (k, v')" by auto
    with later show False by blast
  qed
  then have "map_of (rev es2) k = None" by (simp add: map_of_eq_None_iff)
  then have "map_of (rev es) k = Some v" by (simp add: sp ekv map_add_def)
  then have "map_of d k = Some v" by (simp add: dd fold_update_map_of)
  moreover have "distinct (map fst d)" using fold_update_distinct [of "[]" es] by (simp add: dd)
  ultimately show ?thesis by simp
qed

lemma length_three: "length xs = 3 \<Longrightarrow> \<exists>p a b. xs = [p, a, b]"
  by (cases xs; cases "tl xs"; cases "tl (tl xs)") auto


lemma main_fails:
  assumes len: "length argv = 3" and name: "name = argv ! 1 \<or> name = argv ! 2"
    and fails: "into_dict fs name = Inl e"
  shows "stdout (main fs argv) = [] \<and> (\<exists>e'. outcome (main fs argv) = Uncaught e')"
proof -
  from len obtain p a b where argv: "argv = [p, a, b]" using length_three by blast
  with name have "name = a \<or> name = b" by simp
  then show ?thesis
  proof
    assume "name = a"
    with fails show ?thesis by (simp add: argv main_three)
  next
    assume "name = b"
    with fails show ?thesis
      by (cases "into_dict fs a") (simp_all add: argv main_three)
  qed
qed

lemma main_no_partial: "stdout (main fs argv) \<noteq> [] \<Longrightarrow> outcome (main fs argv) = Exit 0"
proof (cases "length argv = 3")
  case True
  then obtain p a b where argv: "argv = [p, a, b]" using length_three by blast
  assume "stdout (main fs argv) \<noteq> []"
  then show ?thesis
    by (cases "into_dict fs a"; cases "into_dict fs b") (simp_all add: argv main_three)
next
  case False
  assume "stdout (main fs argv) \<noteq> []"
  with False show ?thesis unfolding main_def by simp
qed

lemma into_dict_fails:
  assumes "fs name = Some text" and "l \<in> set (readlines text)" and "entry_of (split l) = Inl e"
  shows "\<exists>e'. into_dict fs name = Inl e'"
proof -
  from assms(2) have "split l \<in> set (map split (readlines text))" by simp
  from dict_of_fails [OF this assms(3)] show ?thesis by (simp add: into_dict_def assms(1))
qed

lemma entry_of_snoc:
  "entry_of (ts @ [t]) =
     (case float_of_string t of None \<Rightarrow> Inl ValueError | Some v \<Rightarrow> Inr (join '' '' ts, v))"
  by (simp add: entry_of_def)

lemma fsub_zero: "fsub x (Fin 0) = x"
  by (cases x) (simp_all add: fsub_def)

lemma get_absent:
  assumes "k \<notin> fst ` set d"
  shows "get d k dflt = dflt"
proof -
  from assms have "map_of d k = None" by (simp add: map_of_eq_None_iff)
  then show ?thesis by (simp add: get_def)
qed


lemma entry_of_key: "entry_of s = Inr (k, v) \<Longrightarrow> k = join '' '' (butlast s)"
  by (cases "s = []"; cases "float_of_string (last s)") (simp_all add: entry_of_def)

lemma into_dict_lines:
  "fs name = Some text \<Longrightarrow> readlines text = ls1 @ l # ls2 \<Longrightarrow>
     into_dict fs name = dict_of (map split ls1 @ split l # map split ls2) []"
  by (simp add: into_dict_def)

lemma into_dict_lookup:
  assumes fs: "fs name = Some text" and ls: "readlines text = ls1 @ l # ls2"
    and d: "into_dict fs name = Inr d"
    and l: "split l = ts @ [t]"
    and later: "\<forall>l' \<in> set ls2. join '' '' (butlast (split l')) \<noteq> join '' '' ts"
  shows "\<exists>v. float_of_string t = Some v \<and> map_of d (join '' '' ts) = Some v"
proof -
  have dd: "dict_of (map split ls1 @ split l # map split ls2) [] = Inr d"
    using into_dict_lines [of fs name "text" ls1 l ls2, OF fs ls] d by simp
  have "float_of_string t \<noteq> None"
  proof
    assume "float_of_string t = None"
    then have "entry_of (split l) = Inl ValueError" by (simp add: l entry_of_snoc)
    moreover have "split l \<in> set (map split ls1 @ split l # map split ls2)" by simp
    ultimately have "\<exists>e. dict_of (map split ls1 @ split l # map split ls2) [] = Inl e"
      by (rule dict_of_fails [rotated])
    with dd show False by simp
  qed
  then obtain v where v: "float_of_string t = Some v" by blast
  then have e: "entry_of (split l) = Inr (join '' '' ts, v)" by (simp add: l entry_of_snoc)
  have "\<forall>s' \<in> set (map split ls2). \<forall>v'. entry_of s' \<noteq> Inr (join '' '' ts, v')"
  proof (intro ballI allI notI)
    fix s' v'
    assume "s' \<in> set (map split ls2)" and "entry_of s' = Inr (join '' '' ts, v')"
    then obtain l' where l': "l' \<in> set ls2" and e': "entry_of (split l') = Inr (join '' '' ts, v')"
      by auto
    from e' have eq: "join '' '' (butlast (split l')) = join '' '' ts"
      by (rule entry_of_key [symmetric])
    from later l' have "join '' '' (butlast (split l')) \<noteq> join '' '' ts" by (rule bspec)
    then show False using eq by (rule notE)
  qed
  from dict_lookup_last [OF dd e this] v show ?thesis by simp
qed

lemma dict_of_first_failure:
  "\<forall>s \<in> set ss1. \<exists>kv. entry_of s = Inr kv \<Longrightarrow> entry_of s = Inl e \<Longrightarrow>
     dict_of (ss1 @ s # ss2) d = Inl e"
proof (induction ss1 arbitrary: d)
  case Nil
  then show ?case by simp
next
  case (Cons a ss1)
  then obtain k v where "entry_of a = Inr (k, v)" by force
  with Cons show ?case by simp
qed

lemma main_output_parsed:
  assumes "stdout (main fs argv) \<noteq> []"
  shows "outcome (main fs argv) = Exit 0 \<and>
     (\<exists>older newer. into_dict fs (argv ! 1) = Inr older \<and> into_dict fs (argv ! 2) = Inr newer)"
proof (cases "length argv = 3")
  case True
  then obtain p a b where argv: "argv = [p, a, b]" using length_three by blast
  show ?thesis
  proof (cases "into_dict fs a")
    case (Inl e)
    with assms show ?thesis by (simp add: argv main_three)
  next
    case older: (Inr older)
    show ?thesis
    proof (cases "into_dict fs b")
      case (Inl e)
      with assms older show ?thesis by (simp add: argv main_three)
    next
      case (Inr newer)
      with older show ?thesis by (simp add: argv main_three)
    qed
  qed
next
  case False
  with assms show ?thesis unfolding main_def by simp
qed

lemma dict_of_succeeds:
  "\<forall>s \<in> set ss. \<exists>kv. entry_of s = Inr kv \<Longrightarrow> \<exists>d'. dict_of ss d = Inr d'"
proof (induction ss arbitrary: d)
  case Nil
  show ?case by simp
next
  case (Cons s ss)
  then obtain k v where e: "entry_of s = Inr (k, v)" by force
  from Cons.prems have "\<forall>s \<in> set ss. \<exists>kv. entry_of s = Inr kv" by simp
  from Cons.IH [OF this] obtain d' where "dict_of ss (AList.update k v d) = Inr d'" by blast
  with e show ?case by simp
qed

lemma into_dict_succeeds:
  assumes "fs name = Some text"
    and "\<forall>l \<in> set (readlines text). \<exists>kv. entry_of (split l) = Inr kv"
  shows "\<exists>d. into_dict fs name = Inr d"
proof -
  from assms(2) have "\<forall>s \<in> set (map split (readlines text)). \<exists>kv. entry_of s = Inr kv"
    by simp
  from dict_of_succeeds [OF this] show ?thesis by (simp add: into_dict_def assms(1))
qed

subsection \<open>The growth loop and the arguments\<close>

text \<open>
  C1: the loop visits the items of the newer dictionary in its order, computes
  \<open>growth = size - older.get(dir, 0)\<close> (the size itself when \<open>dir\<close> is not in the older
  dictionary) and prints the line of \<open>(dir, growth)\<close> exactly when \<open>growth > 0\<close>; this
  list of lines is the standard output of a run whose two reports parse.
\<close>

theorem C1_growth_loop:
  "growth_loop older newer [] =
     map (\<lambda>(dir, sz). print_line dir (fsub sz (get older dir (Fin 0))))
         (filter (\<lambda>(dir, sz). fgt0 (fsub sz (get older dir (Fin 0)))) newer) \<and>
   (d \<notin> fst ` set older \<longrightarrow> fsub s (get older d (Fin 0)) = s) \<and>
   (length argv = 3 \<longrightarrow> into_dict fs (argv ! 1) = Inr older \<longrightarrow>
      into_dict fs (argv ! 2) = Inr newer \<longrightarrow>
      stdout (main fs argv) = growth_loop older newer [])"
proof (intro conjI impI)
  show "growth_loop older newer [] =
     map (\<lambda>(dir, sz). print_line dir (fsub sz (get older dir (Fin 0))))
         (filter (\<lambda>(dir, sz). fgt0 (fsub sz (get older dir (Fin 0)))) newer)"
    using growth_loop_eq [of older newer "[]"] by simp
next
  assume "d \<notin> fst ` set older"
  then show "fsub s (get older d (Fin 0)) = s" by (simp add: get_absent fsub_zero)
next
  assume len: "length argv = 3" and o: "into_dict fs (argv ! 1) = Inr older"
    and n: "into_dict fs (argv ! 2) = Inr newer"
  from len obtain p a b where "argv = [p, a, b]" using length_three by blast
  with o n show "stdout (main fs argv) = growth_loop older newer []"
    by (simp add: main_three)
qed

theorem C1_growth_loop_witness:
  "stdout (main (two_files (''x 10'' @ [LF] @ ''w 7'' @ [LF]) (''x 15'' @ [LF] @ ''y 3'' @ [LF] @ ''w 2'' @ [LF]))
      [''prog'', ''old'', ''new'']) = [''x 5.0'', ''y 3.0''] \<and>
   fsub (Fin 3) (get [(''x'', Fin 10), (''w'', Fin 7)] ''y'' (Fin 0)) = Fin 3"
proof -
  let ?fs = "two_files (''x 10'' @ [LF] @ ''w 7'' @ [LF]) (''x 15'' @ [LF] @ ''y 3'' @ [LF] @ ''w 2'' @ [LF])"
  let ?older = "[(''x'', Fin 10), (''w'', Fin 7)]"
  let ?newer = "[(''x'', Fin 15), (''y'', Fin 3), (''w'', Fin 2)]"
  have len: "length [''prog'', ''old'', ''new''] = 3" by simp
  have o: "into_dict ?fs ([''prog'', ''old'', ''new''] ! 1) = Inr ?older" by code_simp
  have n: "into_dict ?fs ([''prog'', ''old'', ''new''] ! 2) = Inr ?newer" by code_simp
  have y: "''y'' \<notin> fst ` set ?older" by simp
  have g: "map (\<lambda>(dir, sz). print_line dir (fsub sz (get ?older dir (Fin 0))))
         (filter (\<lambda>(dir, sz). fgt0 (fsub sz (get ?older dir (Fin 0)))) ?newer) = [''x 5.0'', ''y 3.0'']"
    by code_simp
  note t = C1_growth_loop [of ?older ?newer "''y''" "Fin 3" "[''prog'', ''old'', ''new'']" ?fs]
  have c1: "growth_loop ?older ?newer [] = [''x 5.0'', ''y 3.0'']"
    using t [THEN conjunct1] g by (rule trans)
  have c2: "fsub (Fin 3) (get ?older ''y'' (Fin 0)) = Fin 3"
    using t [THEN conjunct2, THEN conjunct1] y by (rule mp)
  have c3: "stdout (main ?fs [''prog'', ''old'', ''new'']) = growth_loop ?older ?newer []"
    using t [THEN conjunct2, THEN conjunct2] len o n by blast
  from c3 c1 have "stdout (main ?fs [''prog'', ''old'', ''new'']) = [''x 5.0'', ''y 3.0'']"
    by (rule trans)
  then show ?thesis using c2 by (rule conjI)
qed

text \<open>
  C5: with a number of positional arguments other than two (\<open>sys.argv\<close> not of length
  three) the run prints nothing, writes the usage message on standard error and exits
  with code 1; with two arguments whose reports both parse, it exits with code 0.
\<close>

theorem C5_argument_count:
  "(length argv \<noteq> 3 \<longrightarrow>
      main fs argv = \<lparr>stdout = [], stderr = ''expected two file arguments: old new'' @ [LF],
                      outcome = Exit 1\<rparr>) \<and>
   (length argv = 3 \<longrightarrow> into_dict fs (argv ! 1) = Inr older \<longrightarrow>
      into_dict fs (argv ! 2) = Inr newer \<longrightarrow> outcome (main fs argv) = Exit 0)"
proof (intro conjI impI)
  assume "length argv \<noteq> 3"
  then show "main fs argv = \<lparr>stdout = [], stderr = ''expected two file arguments: old new'' @ [LF],
                      outcome = Exit 1\<rparr>"
    by (simp add: main_def usage_def)
next
  assume len: "length argv = 3" and o: "into_dict fs (argv ! 1) = Inr older"
    and n: "into_dict fs (argv ! 2) = Inr newer"
  from len obtain p a b where "argv = [p, a, b]" using length_three by blast
  with o n show "outcome (main fs argv) = Exit 0"
    by (simp add: main_three)
qed

theorem C5_argument_count_witness:
  "main (two_files ''x 10'' ''x 15'') [''prog''] =
     \<lparr>stdout = [], stderr = ''expected two file arguments: old new'' @ [LF], outcome = Exit 1\<rparr> \<and>
   main (two_files ''x 10'' ''x 15'') [''prog'', ''old'', ''new'', ''more''] =
     \<lparr>stdout = [], stderr = ''expected two file arguments: old new'' @ [LF], outcome = Exit 1\<rparr> \<and>
   outcome (main (two_files ''x 10'' ''x 15'') [''prog'', ''old'', ''new'']) = Exit 0"
proof -
  have o: "into_dict (two_files ''x 10'' ''x 15'') ([''prog'', ''old'', ''new''] ! 1) = Inr [(''x'', Fin 10)]"
    by code_simp
  have n: "into_dict (two_files ''x 10'' ''x 15'') ([''prog'', ''old'', ''new''] ! 2) = Inr [(''x'', Fin 15)]"
    by code_simp
  show ?thesis
    using C5_argument_count [of "[''prog'']" "two_files ''x 10'' ''x 15''"]
      C5_argument_count [of "[''prog'', ''old'', ''new'', ''more'']" "two_files ''x 10'' ''x 15''"]
      C5_argument_count [of "[''prog'', ''old'', ''new'']" "two_files ''x 10'' ''x 15''", THEN conjunct2, rule_format, OF _ o n]
    by simp
qed

subsection \<open>Parsing a report\<close>

text \<open>
  C2: a line whose tokens are \<open>t1 .. tn\<close> with \<open>n \<ge> 2\<close> gives the key \<open>t1 .. t(n-1)\<close>
  joined by single spaces and the value \<open>float(tn)\<close> (ValueError when \<open>tn\<close> is no float);
  no token is empty or contains whitespace, so every run of whitespace of the line is one
  space of the key; a report that parses maps the key to that value unless a later line
  has the same key; the line \<open>my dir 10\<close> gives the key \<open>my dir\<close> and the value 10.
\<close>

theorem C2_key_and_value:
  "(split l = ts @ [t] \<longrightarrow> ts \<noteq> [] \<longrightarrow>
      entry_of (split l) =
        (case float_of_string t of None \<Rightarrow> Inl ValueError | Some v \<Rightarrow> Inr (join '' '' ts, v))) \<and>
   (\<forall>t \<in> set (split l). t \<noteq> [] \<and> (\<forall>c \<in> set t. \<not> is_space c)) \<and>
   (fs name = Some text \<longrightarrow> readlines text = ls1 @ l # ls2 \<longrightarrow> into_dict fs name = Inr d \<longrightarrow>
      split l = ts @ [t] \<longrightarrow> ts \<noteq> [] \<longrightarrow>
      (\<forall>l' \<in> set ls2. join '' '' (butlast (split l')) \<noteq> join '' '' ts) \<longrightarrow>
      (\<exists>v. float_of_string t = Some v \<and> map_of d (join '' '' ts) = Some v)) \<and>
   into_dict (two_files [] ''my dir 10'') ''new'' = Inr [(''my dir'', Fin 10)] \<and>
   into_dict (two_files [] (''my'' @ [CHR 0x09] @ ''  dir   10'' @ [LF])) ''new'' =
     Inr [(''my dir'', Fin 10)]"
proof -
  have a: "split l = ts @ [t] \<longrightarrow> ts \<noteq> [] \<longrightarrow>
      entry_of (split l) =
        (case float_of_string t of None \<Rightarrow> Inl ValueError | Some v \<Rightarrow> Inr (join '' '' ts, v))"
    by (simp add: entry_of_snoc)
  have b: "\<forall>t \<in> set (split l). t \<noteq> [] \<and> (\<forall>c \<in> set t. \<not> is_space c)"
    using split_tokens by blast
  have c: "fs name = Some text \<longrightarrow> readlines text = ls1 @ l # ls2 \<longrightarrow> into_dict fs name = Inr d \<longrightarrow>
      split l = ts @ [t] \<longrightarrow> ts \<noteq> [] \<longrightarrow>
      (\<forall>l' \<in> set ls2. join '' '' (butlast (split l')) \<noteq> join '' '' ts) \<longrightarrow>
      (\<exists>v. float_of_string t = Some v \<and> map_of d (join '' '' ts) = Some v)"
  proof (intro impI)
    assume "fs name = Some text" "readlines text = ls1 @ l # ls2" "into_dict fs name = Inr d"
      "split l = ts @ [t]" "\<forall>l' \<in> set ls2. join '' '' (butlast (split l')) \<noteq> join '' '' ts"
    then show "\<exists>v. float_of_string t = Some v \<and> map_of d (join '' '' ts) = Some v"
      by (rule into_dict_lookup [of fs name "text" ls1 l ls2 d ts t])
  qed
  have d1: "into_dict (two_files [] ''my dir 10'') ''new'' = Inr [(''my dir'', Fin 10)]"
    by code_simp
  have d2: "into_dict (two_files [] (''my'' @ [CHR 0x09] @ ''  dir   10'' @ [LF])) ''new'' =
     Inr [(''my dir'', Fin 10)]"
    by code_simp
  show ?thesis by (intro conjI a b c d1 d2)
qed

theorem C2_key_and_value_witness:
  "entry_of (split (''a/b  c 12.5'' @ [LF])) = Inr (''a/b c'', Fin (25 / 2)) \<and>
   map_of [(''a/b c'', Fin (25 / 2)), (''d'', Fin 1)] ''a/b c'' = Some (Fin (25 / 2))"
proof -
  let ?l = "''a/b  c 12.5'' @ [LF]"
  let ?text = "''a/b c 3'' @ [LF] @ ''a/b  c 12.5'' @ [LF] @ ''d 1'' @ [LF]"
  let ?d = "[(''a/b c'', Fin (25 / 2)), (''d'', Fin 1)]"
  have s: "split ?l = [''a/b'', ''c''] @ [''12.5'']" by code_simp
  have ne: "[''a/b'', ''c''] \<noteq> []" by simp
  have v: "float_of_string ''12.5'' = Some (Fin (25 / 2))" by code_simp
  have j: "join '' '' [''a/b'', ''c''] = ''a/b c''" by simp
  have f: "two_files [] ?text ''new'' = Some ?text" by (simp add: two_files_def)
  have r: "readlines ?text = [''a/b c 3'' @ [LF]] @ ?l # [''d 1'' @ [LF]]" by code_simp
  have d: "into_dict (two_files [] ?text) ''new'' = Inr ?d" by code_simp
  have k: "join '' '' (butlast (split (''d 1'' @ [LF]))) = ''d''" by code_simp
  have later: "\<forall>l' \<in> set [''d 1'' @ [LF]]. join '' '' (butlast (split l')) \<noteq> join '' '' [''a/b'', ''c'']"
    using k by simp
  note t = C2_key_and_value [of ?l "[''a/b'', ''c'']" "''12.5''" "two_files [] ?text" "''new''" ?text
      "[''a/b c 3'' @ [LF]]" "[''d 1'' @ [LF]]" ?d]
  from t s ne have "entry_of (split ?l) =
      (case float_of_string ''12.5'' of None \<Rightarrow> Inl ValueError
       | Some v \<Rightarrow> Inr (join '' '' [''a/b'', ''c''], v))" by blast
  then have e: "entry_of (split ?l) = Inr (''a/b c'', Fin (25 / 2))" by (simp add: v)
  from t f r d s ne later
  have "\<exists>v. float_of_string ''12.5'' = Some v \<and> map_of ?d (join '' '' [''a/b'', ''c'']) = Some v"
    by blast
  then have "map_of ?d ''a/b c'' = Some (Fin (25 / 2))" by (simp add: v)
  with e show ?thesis by (rule conjI)
qed

text \<open>
  C7: a line of exactly one token \<open>t\<close> gives the empty key and the value \<open>float(t)\<close>; the
  single token raises no IndexError (only ValueError, when \<open>t\<close> is no float). A report
  whose other lines parse, with such a line whose token is a float, gives a dictionary,
  which maps the empty key to the value of the token unless a later line has the empty
  key.
\<close>

theorem C7_single_token:
  "(split l = [t] \<longrightarrow>
      entry_of (split l) =
        (case float_of_string t of None \<Rightarrow> Inl ValueError | Some v \<Rightarrow> Inr ('''', v))) \<and>
   (fs name = Some text \<longrightarrow> readlines text = ls1 @ l # ls2 \<longrightarrow>
      split l = [t] \<longrightarrow> float_of_string t = Some v \<longrightarrow>
      (\<forall>l' \<in> set (ls1 @ ls2). \<exists>kv. entry_of (split l') = Inr kv) \<longrightarrow>
      (\<forall>l' \<in> set ls2. join '' '' (butlast (split l')) \<noteq> '''') \<longrightarrow>
      (\<exists>d. into_dict fs name = Inr d \<and> map_of d '''' = Some v))"
proof -
  have a: "split l = [t] \<longrightarrow>
      entry_of (split l) =
        (case float_of_string t of None \<Rightarrow> Inl ValueError | Some v \<Rightarrow> Inr ('''', v))"
    using entry_of_snoc [of "[]" t] by (simp cong: option.case_cong)
  have b: "fs name = Some text \<longrightarrow> readlines text = ls1 @ l # ls2 \<longrightarrow>
      split l = [t] \<longrightarrow> float_of_string t = Some v \<longrightarrow>
      (\<forall>l' \<in> set (ls1 @ ls2). \<exists>kv. entry_of (split l') = Inr kv) \<longrightarrow>
      (\<forall>l' \<in> set ls2. join '' '' (butlast (split l')) \<noteq> '''') \<longrightarrow>
      (\<exists>d. into_dict fs name = Inr d \<and> map_of d '''' = Some v)"
  proof (intro impI)
    assume fs: "fs name = Some text" and ls: "readlines text = ls1 @ l # ls2"
      and l: "split l = [t]" and v: "float_of_string t = Some v"
      and others: "\<forall>l' \<in> set (ls1 @ ls2). \<exists>kv. entry_of (split l') = Inr kv"
      and later: "\<forall>l' \<in> set ls2. join '' '' (butlast (split l')) \<noteq> ''''"
    from l have l': "split l = [] @ [t]" by simp
    have "entry_of (split l) = Inr ('''', v)" using entry_of_snoc [of "[]" t] l v by simp
    with others have "\<forall>l' \<in> set (ls1 @ l # ls2). \<exists>kv. entry_of (split l') = Inr kv" by simp
    then have every: "\<forall>l' \<in> set (readlines text). \<exists>kv. entry_of (split l') = Inr kv"
      by (simp only: ls)
    from into_dict_succeeds [of fs name "text", OF fs every]
    obtain d where d: "into_dict fs name = Inr d" by blast
    from later have later': "\<forall>l' \<in> set ls2. join '' '' (butlast (split l')) \<noteq> join '' '' []"
      by simp
    from into_dict_lookup [of fs name "text" ls1 l ls2 d "[]" t, OF fs ls d l' later'] v
    have "map_of d '''' = Some v" by simp
    with d show "\<exists>d. into_dict fs name = Inr d \<and> map_of d '''' = Some v" by blast
  qed
  show ?thesis by (intro conjI a b)
qed

theorem C7_single_token_witness:
  "entry_of (split (''42'' @ [LF])) = Inr ('''', Fin 42) \<and>
   into_dict (two_files [] (''x 1'' @ [LF] @ ''42'' @ [LF] @ ''x 1'' @ [LF])) ''new'' =
     Inr [(''x'', Fin 1), ('''', Fin 42)] \<and>
   (\<exists>d. into_dict (two_files [] (''x 1'' @ [LF] @ ''42'' @ [LF] @ ''x 1'' @ [LF])) ''new'' = Inr d \<and>
      map_of d '''' = Some (Fin 42))"
proof -
  let ?l = "''42'' @ [LF]"
  let ?text = "''x 1'' @ [LF] @ ''42'' @ [LF] @ ''x 1'' @ [LF]"
  have s: "split ?l = [''42'']" by code_simp
  have v: "float_of_string ''42'' = Some (Fin 42)" by code_simp
  have f: "two_files [] ?text ''new'' = Some ?text" by (simp add: two_files_def)
  have r: "readlines ?text = [''x 1'' @ [LF]] @ ?l # [''x 1'' @ [LF]]" by code_simp
  have d: "into_dict (two_files [] ?text) ''new'' = Inr [(''x'', Fin 1), ('''', Fin 42)]"
    by code_simp
  have x: "entry_of (split (''x 1'' @ [LF])) = Inr (''x'', Fin 1)" by code_simp
  have k: "join '' '' (butlast (split (''x 1'' @ [LF]))) = ''x''" by code_simp
  have others: "\<forall>l' \<in> set ([''x 1'' @ [LF]] @ [''x 1'' @ [LF]]). \<exists>kv. entry_of (split l') = Inr kv"
    using x by simp
  have later: "\<forall>l' \<in> set [''x 1'' @ [LF]]. join '' '' (butlast (split l')) \<noteq> ''''"
    using k by simp
  note t = C7_single_token [of ?l "''42''" "two_files [] ?text" "''new''" ?text
      "[''x 1'' @ [LF]]" "[''x 1'' @ [LF]]" "Fin 42"]
  from t s have "entry_of (split ?l) =
      (case float_of_string ''42'' of None \<Rightarrow> Inl ValueError | Some v \<Rightarrow> Inr ('''', v))"
    by blast
  then have e: "entry_of (split ?l) = Inr ('''', Fin 42)" by (simp add: v)
  from t f r s v others later
  have m: "\<exists>d. into_dict (two_files [] ?text) ''new'' = Inr d \<and> map_of d '''' = Some (Fin 42)"
    by blast
  from e d m show ?thesis by (intro conjI)
qed

text \<open>
  C8: a line without a token makes the parse fail: reading \<open>s[-1]\<close> of the empty token
  list raises IndexError, which is the error of \<open>into_dict\<close> when the lines before parse
  (an earlier bad line raises first); the run ends with an uncaught exception and has
  printed nothing.
\<close>

theorem C8_empty_line:
  "entry_of [] = Inl IndexError \<and>
   (fs name = Some text \<longrightarrow> l \<in> set (readlines text) \<longrightarrow> split l = [] \<longrightarrow>
      (\<exists>e. into_dict fs name = Inl e)) \<and>
   (fs name = Some text \<longrightarrow> readlines text = ls1 @ l # ls2 \<longrightarrow> split l = [] \<longrightarrow>
      (\<forall>l' \<in> set ls1. \<exists>kv. entry_of (split l') = Inr kv) \<longrightarrow>
      into_dict fs name = Inl IndexError) \<and>
   (length argv = 3 \<longrightarrow> (name = argv ! 1 \<or> name = argv ! 2) \<longrightarrow> fs name = Some text \<longrightarrow>
      l \<in> set (readlines text) \<longrightarrow> split l = [] \<longrightarrow>
      stdout (main fs argv) = [] \<and> (\<exists>e. outcome (main fs argv) = Uncaught e))"
proof -
  have e: "entry_of [] = Inl IndexError" by (simp add: entry_of_def)
  have f: "fs name = Some text \<longrightarrow> l \<in> set (readlines text) \<longrightarrow> split l = [] \<longrightarrow>
      (\<exists>e. into_dict fs name = Inl e)"
  proof (intro impI)
    assume a: "fs name = Some text" "l \<in> set (readlines text)" and "split l = []"
    then have "entry_of (split l) = Inl IndexError" using e by simp
    with a show "\<exists>e. into_dict fs name = Inl e" by (rule into_dict_fails [of fs name "text" l])
  qed
  have g: "fs name = Some text \<longrightarrow> readlines text = ls1 @ l # ls2 \<longrightarrow> split l = [] \<longrightarrow>
      (\<forall>l' \<in> set ls1. \<exists>kv. entry_of (split l') = Inr kv) \<longrightarrow>
      into_dict fs name = Inl IndexError"
  proof (intro impI)
    assume fs: "fs name = Some text" and ls: "readlines text = ls1 @ l # ls2"
      and l: "split l = []" and before: "\<forall>l' \<in> set ls1. \<exists>kv. entry_of (split l') = Inr kv"
    from before have "\<forall>s \<in> set (map split ls1). \<exists>kv. entry_of s = Inr kv" by simp
    moreover have "entry_of (split l) = Inl IndexError" using e l by simp
    ultimately have "dict_of (map split ls1 @ split l # map split ls2) [] = Inl IndexError"
      by (rule dict_of_first_failure)
    then show "into_dict fs name = Inl IndexError"
      using into_dict_lines [of fs name "text" ls1 l ls2, OF fs ls] by simp
  qed
  have h: "length argv = 3 \<longrightarrow> (name = argv ! 1 \<or> name = argv ! 2) \<longrightarrow> fs name = Some text \<longrightarrow>
      l \<in> set (readlines text) \<longrightarrow> split l = [] \<longrightarrow>
      stdout (main fs argv) = [] \<and> (\<exists>e. outcome (main fs argv) = Uncaught e)"
  proof (intro impI)
    assume len: "length argv = 3" and name: "name = argv ! 1 \<or> name = argv ! 2"
      and a: "fs name = Some text" "l \<in> set (readlines text)" "split l = []"
    from f a obtain e' where "into_dict fs name = Inl e'" by blast
    with len name show "stdout (main fs argv) = [] \<and> (\<exists>e. outcome (main fs argv) = Uncaught e)"
      by (rule main_fails)
  qed
  show ?thesis by (intro conjI e f g h)
qed

theorem C8_empty_line_witness:
  "into_dict (two_files ''x 10'' (''x 15'' @ [LF] @ '' '' @ [LF] @ ''y 3'' @ [LF])) ''new'' = Inl IndexError \<and>
   stdout (main (two_files ''x 10'' (''x 15'' @ [LF] @ '' '' @ [LF] @ ''y 3'' @ [LF])) [''prog'', ''old'', ''new'']) = [] \<and>
   (\<exists>e. outcome (main (two_files ''x 10'' (''x 15'' @ [LF] @ '' '' @ [LF] @ ''y 3'' @ [LF])) [''prog'', ''old'', ''new'']) = Uncaught e)"
proof -
  let ?text = "''x 15'' @ [LF] @ '' '' @ [LF] @ ''y 3'' @ [LF]"
  let ?fs = "two_files ''x 10'' ?text"
  let ?l = "'' '' @ [LF]"
  have f: "?fs ''new'' = Some ?text" by (simp add: two_files_def)
  have r: "readlines ?text = [''x 15'' @ [LF]] @ ?l # [''y 3'' @ [LF]]" by code_simp
  have m: "?l \<in> set (readlines ?text)" by code_simp
  have s: "split ?l = []" by code_simp
  have x: "entry_of (split (''x 15'' @ [LF])) = Inr (''x'', Fin 15)" by code_simp
  have before: "\<forall>l' \<in> set [''x 15'' @ [LF]]. \<exists>kv. entry_of (split l') = Inr kv"
    using x by simp
  have len: "length [''prog'', ''old'', ''new''] = 3" by simp
  have n: "''new'' = [''prog'', ''old'', ''new''] ! 1 \<or> ''new'' = [''prog'', ''old'', ''new''] ! 2"
    by simp
  note t = C8_empty_line [of ?fs "''new''" ?text ?l "[''x 15'' @ [LF]]" "[''y 3'' @ [LF]]"
      "[''prog'', ''old'', ''new'']"]
  from t f r s before have a: "into_dict ?fs ''new'' = Inl IndexError" by blast
  from t len n f m s
  have b: "stdout (main ?fs [''prog'', ''old'', ''new'']) = [] \<and>
     (\<exists>e. outcome (main ?fs [''prog'', ''old'', ''new'']) = Uncaught e)" by blast
  from a b show ?thesis by (rule conjI)
qed

text \<open>
  C9: when a key occurs on several lines of a report whose lines all parse, the report
  gives a dictionary (the repetition raises no error), the dictionary has exactly one
  item for the key, and its value is the size of the last such line.
\<close>

theorem C9_last_line_wins:
  assumes "fs name = Some text" and "readlines text = ls1 @ l # ls2"
    and "\<forall>l' \<in> set (readlines text). \<exists>kv. entry_of (split l') = Inr kv"
    and "entry_of (split l) = Inr (k, v)"
    and "\<forall>l' \<in> set ls2. \<forall>v'. entry_of (split l') \<noteq> Inr (k, v')"
  shows "\<exists>d. into_dict fs name = Inr d \<and> filter (\<lambda>e. fst e = k) d = [(k, v)]"
proof -
  from into_dict_succeeds [of fs name "text", OF assms(1) assms(3)]
  obtain d where d: "into_dict fs name = Inr d" by blast
  have dd: "dict_of (map split ls1 @ split l # map split ls2) [] = Inr d"
    using into_dict_lines [of fs name "text" ls1 l ls2, OF assms(1) assms(2)] d by simp
  have later: "\<forall>s' \<in> set (map split ls2). \<forall>v'. entry_of s' \<noteq> Inr (k, v')"
    using assms(5) by simp
  from dd assms(4) later have "map_of d k = Some v \<and> distinct (map fst d)"
    by (rule dict_lookup_last)
  then have "filter (\<lambda>e. fst e = k) d = [(k, v)]" by (simp add: distinct_filter_key)
  with d show ?thesis by blast
qed

theorem C9_last_line_wins_witness:
  "into_dict (two_files [] (''a 1'' @ [LF] @ ''b 5'' @ [LF] @ ''a 3'' @ [LF] @ ''c 7'' @ [LF])) ''new'' =
     Inr [(''a'', Fin 3), (''b'', Fin 5), (''c'', Fin 7)] \<and>
   (\<exists>d. into_dict (two_files [] (''a 1'' @ [LF] @ ''b 5'' @ [LF] @ ''a 3'' @ [LF] @ ''c 7'' @ [LF])) ''new'' = Inr d \<and>
      filter (\<lambda>e. fst e = ''a'') d = [(''a'', Fin 3)])"
proof -
  let ?text = "''a 1'' @ [LF] @ ''b 5'' @ [LF] @ ''a 3'' @ [LF] @ ''c 7'' @ [LF]"
  have f: "two_files [] ?text ''new'' = Some ?text" by (simp add: two_files_def)
  have r: "readlines ?text = [''a 1'' @ [LF], ''b 5'' @ [LF]] @ (''a 3'' @ [LF]) # [''c 7'' @ [LF]]"
    by code_simp
  have d: "into_dict (two_files [] ?text) ''new'' = Inr [(''a'', Fin 3), (''b'', Fin 5), (''c'', Fin 7)]"
    by code_simp
  have a: "entry_of (split (''a 1'' @ [LF])) = Inr (''a'', Fin 1)" by code_simp
  have b: "entry_of (split (''b 5'' @ [LF])) = Inr (''b'', Fin 5)" by code_simp
  have e: "entry_of (split (''a 3'' @ [LF])) = Inr (''a'', Fin 3)" by code_simp
  have c: "entry_of (split (''c 7'' @ [LF])) = Inr (''c'', Fin 7)" by code_simp
  have l: "\<forall>l' \<in> set [''c 7'' @ [LF]]. \<forall>v'. entry_of (split l') \<noteq> Inr (''a'', v')"
    using c by simp
  have every: "\<forall>l' \<in> set ([''a 1'' @ [LF], ''b 5'' @ [LF]] @ (''a 3'' @ [LF]) # [''c 7'' @ [LF]]).
      \<exists>kv. entry_of (split l') = Inr kv"
    using a b e c by simp
  have all: "\<forall>l' \<in> set (readlines ?text). \<exists>kv. entry_of (split l') = Inr kv"
    unfolding r by (rule every)
  have "\<exists>d. into_dict (two_files [] ?text) ''new'' = Inr d \<and>
      filter (\<lambda>e. fst e = ''a'') d = [(''a'', Fin 3)]"
    by (rule C9_last_line_wins [of "two_files [] ?text" "''new''" ?text
          "[''a 1'' @ [LF], ''b 5'' @ [LF]]" "''a 3'' @ [LF]" "[''c 7'' @ [LF]]"
          "''a''" "Fin 3", OF f r all e l])
  with d show ?thesis by (rule conjI)
qed

subsection \<open>Errors\<close>

text \<open>
  C6: when a report cannot be read, or the last token of one of its lines is no float,
  the run ends with an uncaught exception and has printed nothing; a run that prints a
  line has parsed both reports before, and ends with code 0.
\<close>

theorem C6_no_partial_output:
  "(length argv = 3 \<longrightarrow> (name = argv ! 1 \<or> name = argv ! 2) \<longrightarrow>
      (fs name = None \<or>
       (\<exists>body l. fs name = Some body \<and> l \<in> set (readlines body) \<and> split l \<noteq> [] \<and>
          float_of_string (last (split l)) = None)) \<longrightarrow>
      stdout (main fs argv) = [] \<and> (\<exists>e. outcome (main fs argv) = Uncaught e)) \<and>
   (stdout (main fs argv) \<noteq> [] \<longrightarrow>
      outcome (main fs argv) = Exit 0 \<and>
      (\<exists>older newer. into_dict fs (argv ! 1) = Inr older \<and> into_dict fs (argv ! 2) = Inr newer))"
proof -
  have a: "length argv = 3 \<longrightarrow> (name = argv ! 1 \<or> name = argv ! 2) \<longrightarrow>
      (fs name = None \<or>
       (\<exists>body l. fs name = Some body \<and> l \<in> set (readlines body) \<and> split l \<noteq> [] \<and>
          float_of_string (last (split l)) = None)) \<longrightarrow>
      stdout (main fs argv) = [] \<and> (\<exists>e. outcome (main fs argv) = Uncaught e)"
  proof (intro impI)
    assume len: "length argv = 3" and name: "name = argv ! 1 \<or> name = argv ! 2"
      and bad: "fs name = None \<or>
       (\<exists>body l. fs name = Some body \<and> l \<in> set (readlines body) \<and> split l \<noteq> [] \<and>
          float_of_string (last (split l)) = None)"
    have "\<exists>e. into_dict fs name = Inl e"
    proof (cases "fs name")
      case None
      then show ?thesis by (simp add: into_dict_def)
    next
      case (Some body)
      with bad obtain l where l: "l \<in> set (readlines body)" "split l \<noteq> []"
        "float_of_string (last (split l)) = None" by auto
      then have "entry_of (split l) = Inl ValueError" by (simp add: entry_of_def)
      with Some l(1) show ?thesis by (rule into_dict_fails [of fs name body l])
    qed
    then obtain e where "into_dict fs name = Inl e" by blast
    with len name show "stdout (main fs argv) = [] \<and> (\<exists>e. outcome (main fs argv) = Uncaught e)"
      by (rule main_fails)
  qed
  have b: "stdout (main fs argv) \<noteq> [] \<longrightarrow>
      outcome (main fs argv) = Exit 0 \<and>
      (\<exists>older newer. into_dict fs (argv ! 1) = Inr older \<and> into_dict fs (argv ! 2) = Inr newer)"
    using main_output_parsed by blast
  show ?thesis by (intro conjI a b)
qed

theorem C6_no_partial_output_witness:
  "stdout (main (two_files ''x 10'' (''x 15'' @ [LF] @ ''y abc'' @ [LF])) [''prog'', ''old'', ''new'']) = [] \<and>
   (\<exists>e. outcome (main (two_files ''x 10'' (''x 15'' @ [LF] @ ''y abc'' @ [LF])) [''prog'', ''old'', ''new'']) = Uncaught e) \<and>
   stdout (main (two_files ''x 10'' ''x 15'') [''prog'', ''gone'', ''new'']) = [] \<and>
   (\<exists>e. outcome (main (two_files ''x 10'' ''x 15'') [''prog'', ''gone'', ''new'']) = Uncaught e) \<and>
   outcome (main (two_files ''x 10'' ''x 15'') [''prog'', ''old'', ''new'']) = Exit 0"
proof -
  let ?body = "''x 15'' @ [LF] @ ''y abc'' @ [LF]"
  let ?fs = "two_files ''x 10'' ?body"
  let ?argv = "[''prog'', ''old'', ''new'']"
  let ?l = "''y abc'' @ [LF]"
  have len: "length ?argv = 3" by simp
  have n: "''new'' = ?argv ! 1 \<or> ''new'' = ?argv ! 2" by simp
  have f: "?fs ''new'' = Some ?body" by (simp add: two_files_def)
  have r: "readlines ?body = [''x 15'' @ [LF], ?l]" by code_simp
  have m: "?l \<in> set (readlines ?body)" by code_simp
  have s: "split ?l = [''y'', ''abc'']" by code_simp
  have v: "float_of_string ''abc'' = None" by code_simp
  have bad: "?fs ''new'' = None \<or>
       (\<exists>body l. ?fs ''new'' = Some body \<and> l \<in> set (readlines body) \<and> split l \<noteq> [] \<and>
          float_of_string (last (split l)) = None)"
    using f m s v by (intro disjI2 exI [of _ ?body] exI [of _ ?l]) simp
  have a: "stdout (main ?fs ?argv) = [] \<and> (\<exists>e. outcome (main ?fs ?argv) = Uncaught e)"
    using C6_no_partial_output [of ?argv "''new''" ?fs, THEN conjunct1] len n bad by blast
  let ?fs2 = "two_files ''x 10'' ''x 15''"
  let ?argv2 = "[''prog'', ''gone'', ''new'']"
  have len2: "length ?argv2 = 3" by simp
  have n2: "''gone'' = ?argv2 ! 1 \<or> ''gone'' = ?argv2 ! 2" by simp
  have bad2: "?fs2 ''gone'' = None \<or>
       (\<exists>body l. ?fs2 ''gone'' = Some body \<and> l \<in> set (readlines body) \<and> split l \<noteq> [] \<and>
          float_of_string (last (split l)) = None)"
    by (simp add: two_files_def)
  have b: "stdout (main ?fs2 ?argv2) = [] \<and> (\<exists>e. outcome (main ?fs2 ?argv2) = Uncaught e)"
    using C6_no_partial_output [of ?argv2 "''gone''" ?fs2, THEN conjunct1] len2 n2 bad2 by blast
  have o: "stdout (main ?fs2 ?argv) = [''x 5.0'']" by code_simp
  then have "stdout (main ?fs2 ?argv) \<noteq> []" by simp
  then have c: "outcome (main ?fs2 ?argv) = Exit 0"
    using C6_no_partial_output [of ?argv "''new''" ?fs2, THEN conjunct2] by blast
  from a b c show ?thesis by blast
qed

subsection \<open>The printed number\<close>

lemma ndigits_step: "0 < n \<Longrightarrow> 2 \<le> b \<Longrightarrow> ndigits b n = 1 + ndigits b (n div b)"
  by (subst ndigits.simps) simp

lemma ndigits_nonpos: "n \<le> 0 \<Longrightarrow> ndigits b n = 0"
  by (subst ndigits.simps) simp

lemma ndigits_bounds:
  "0 < n \<Longrightarrow> 2 \<le> b \<Longrightarrow>
     1 \<le> ndigits b n \<and> b ^ nat (ndigits b n - 1) \<le> n \<and> n < b ^ nat (ndigits b n)"
proof (induction b n rule: ndigits.induct)
  case (1 b n)
  from "1.prems" have b0: "0 < b" by simp
  have eq: "ndigits b n = 1 + ndigits b (n div b)" using "1.prems" by (rule ndigits_step)
  have m: "b * (n div b) + n mod b = n" by simp
  have m0: "0 \<le> n mod b" and m1: "n mod b < b" using b0 by simp_all
  have d0: "0 \<le> n div b" using "1.prems"(1) b0 by (simp add: pos_imp_zdiv_nonneg_iff)
  show ?case
  proof (cases "n div b = 0")
    case True
    then have k: "ndigits b (n div b) = 0" by (simp add: ndigits_nonpos)
    from True m have "n = n mod b" by simp
    with m1 have "n < b" by simp
    with "1.prems"(1) show ?thesis by (simp add: eq True ndigits_nonpos)
  next
    case False
    with d0 have pos: "0 < n div b" by simp
    have cond: "\<not> (n \<le> 0 \<or> b < 2)" using "1.prems" by simp
    let ?k = "ndigits b (n div b)"
    from "1.IH" [OF cond pos "1.prems"(2)]
    have k1: "1 \<le> ?k" and lo: "b ^ nat (?k - 1) \<le> n div b" and hi: "n div b < b ^ nat ?k"
      by simp_all
    have nk: "nat ?k = Suc (nat (?k - 1))" using k1 by simp
    have "b * b ^ nat (?k - 1) \<le> b * (n div b)" using lo b0 by (simp add: mult_left_mono)
    then have "b ^ nat ?k \<le> b * (n div b)" by (simp add: nk)
    with m m0 have low: "b ^ nat ?k \<le> n" by linarith
    from hi have "n div b + 1 \<le> b ^ nat ?k" by simp
    then have "b * (n div b + 1) \<le> b * b ^ nat ?k" using b0 by (simp add: mult_left_mono)
    moreover have "b * (n div b + 1) = b * (n div b) + b" by (simp add: distrib_left)
    ultimately have "n < b * b ^ nat ?k" using m m1 by linarith
    moreover have "nat (1 + ?k) = Suc (nat ?k)" using k1 by simp
    ultimately have up: "n < b ^ nat (1 + ?k)" by simp
    from k1 low up show ?thesis by (simp add: eq)
  qed
qed

lemma pw_nonneg: "0 \<le> i \<Longrightarrow> pw b i = b ^ nat i"
  by (simp add: pw_def)

lemma pw_neg: "i < 0 \<Longrightarrow> pw b i = 1 / b ^ nat (- i)"
  by (simp add: pw_def)

lemma floor_log_bounds:
  assumes q: "0 < q" and b: "2 \<le> b"
  shows "pw (of_int b) (floor_log b q) \<le> q \<and> q < pw (of_int b) (floor_log b q + 1)"
proof (cases "1 \<le> q")
  case True
  let ?n = "\<lfloor>q\<rfloor>"
  let ?k = "ndigits b ?n"
  from True have n: "0 < ?n" by simp
  from ndigits_bounds [OF n b]
  have k1: "1 \<le> ?k" and lo: "b ^ nat (?k - 1) \<le> ?n" and hi: "?n < b ^ nat ?k" by simp_all
  have fl: "floor_log b q = ?k - 1" using True by (simp add: floor_log_def)
  have "(of_int (b ^ nat (?k - 1)) :: rat) \<le> of_int ?n" using lo by (simp only: of_int_le_iff)
  also have "\<dots> \<le> q" by simp
  finally have low: "(of_int b :: rat) ^ nat (?k - 1) \<le> q" by simp
  from hi have "?n + 1 \<le> b ^ nat ?k" by simp
  then have "(of_int (?n + 1) :: rat) \<le> of_int (b ^ nat ?k)" by (simp only: of_int_le_iff)
  moreover have "q < of_int (?n + 1)" by simp linarith
  ultimately have up: "q < (of_int b :: rat) ^ nat ?k" by simp
  from k1 low up show ?thesis by (simp add: fl pw_nonneg)
next
  case False
  then have q1: "q < 1" by simp
  let ?r = "1 / q"
  let ?n = "\<lceil>?r\<rceil> - 1"
  let ?k = "ndigits b ?n"
  let ?B = "of_int b :: rat"
  have B0: "0 < ?B" using b by simp
  have r1: "1 < ?r" using q q1 by simp
  then have n: "0 < ?n" by (simp add: less_ceiling_iff)
  from ndigits_bounds [OF n b]
  have k1: "1 \<le> ?k" and lo: "b ^ nat (?k - 1) \<le> ?n" and hi: "?n < b ^ nat ?k" by simp_all
  have fl: "floor_log b q = - ?k" using False by (simp add: floor_log_def)
  from hi have "\<lceil>?r\<rceil> \<le> b ^ nat ?k" by simp
  then have c: "(of_int \<lceil>?r\<rceil> :: rat) \<le> of_int (b ^ nat ?k)" by (simp only: of_int_le_iff)
  have "?r \<le> of_int \<lceil>?r\<rceil>" by (rule le_of_int_ceiling)
  also note c
  also have "(of_int (b ^ nat ?k) :: rat) = ?B ^ nat ?k" by simp
  finally have "?r \<le> ?B ^ nat ?k" .
  then have "1 \<le> ?B ^ nat ?k * q" using q by (simp add: pos_divide_le_eq)
  then have low: "1 / ?B ^ nat ?k \<le> q" using B0 by (simp add: pos_divide_le_eq mult.commute)
  have nr: "of_int ?n < ?r" using ceiling_correct [of ?r] by simp
  have up: "q < pw ?B (- ?k + 1)"
  proof (cases "?k = 1")
    case True
    then show ?thesis using q1 by (simp add: pw_def)
  next
    case False
    with k1 have k2: "2 \<le> ?k" by simp
    have "(of_int (b ^ nat (?k - 1)) :: rat) \<le> of_int ?n" using lo by (simp only: of_int_le_iff)
    with nr have "?B ^ nat (?k - 1) < ?r" by simp
    then have "?B ^ nat (?k - 1) * q < 1" using q by (simp add: pos_less_divide_eq)
    then have "q < 1 / ?B ^ nat (?k - 1)" using B0 by (simp add: pos_less_divide_eq mult.commute)
    moreover have "pw ?B (- ?k + 1) = 1 / ?B ^ nat (?k - 1)" using k2 by (simp add: pw_def)
    ultimately show ?thesis by simp
  qed
  from k1 low up show ?thesis by (simp add: fl pw_neg)
qed

lemma pw_succ: "b \<noteq> 0 \<Longrightarrow> pw b (i + 1) = b * pw b i"
proof (cases "0 \<le> i")
  case True
  then have "nat (i + 1) = Suc (nat i)" by simp
  with True show ?thesis by (simp add: pw_def)
next
  case False
  assume b: "b \<noteq> 0"
  from False have n: "nat (- i) = Suc (nat (- (i + 1)))" by simp
  show ?thesis
  proof (cases "i = - 1")
    case True
    with b show ?thesis by (simp add: pw_def)
  next
    case False
    with \<open>\<not> 0 \<le> i\<close> have "\<not> 0 \<le> i + 1" by simp
    with \<open>\<not> 0 \<le> i\<close> b show ?thesis by (simp add: pw_def n)
  qed
qed

lemma pw_pos: "0 < b \<Longrightarrow> 0 < pw b i"
  by (simp add: pw_def)

lemma round_half_even_bounds: "\<lfloor>x\<rfloor> \<le> round_half_even x \<and> round_half_even x \<le> \<lfloor>x\<rfloor> + 1"
  by (simp add: round_half_even_def Let_def)

lemma round_sig2_bounds:
  assumes q: "0 < q"
  shows "10 \<le> fst (round_sig2 q) \<and> fst (round_sig2 q) \<le> 99"
proof -
  let ?f = "floor_log 10 q"
  let ?p = "pw 10 (?f - 1)"
  let ?x = "q / ?p"
  have b: "(2::int) \<le> 10" by simp
  from floor_log_bounds [OF q b] have lo: "pw 10 ?f \<le> q" and hi: "q < pw 10 (?f + 1)"
    by simp_all
  have p1: "pw 10 ?f = 10 * ?p" using pw_succ [of 10 "?f - 1"] by simp
  have p2: "pw 10 (?f + 1) = 10 * pw 10 ?f" using pw_succ [of 10 ?f] by simp
  have pp: "0 < ?p" by (simp add: pw_pos)
  from lo p1 have "10 * ?p \<le> q" by simp
  with pp have x1: "10 \<le> ?x" by (simp add: pos_le_divide_eq)
  from hi p1 p2 have "q < 100 * ?p" by simp
  with pp have x2: "?x < 100" by (simp add: pos_divide_less_eq)
  from x1 have f1: "10 \<le> \<lfloor>?x\<rfloor>" by (simp add: le_floor_iff)
  from x2 have f2: "\<lfloor>?x\<rfloor> \<le> 99" by (simp add: floor_less_iff)
  let ?m = "round_half_even ?x"
  have rb: "\<lfloor>?x\<rfloor> \<le> ?m" "?m \<le> \<lfloor>?x\<rfloor> + 1"
    using round_half_even_bounds [of ?x] by blast+
  from rb f1 f2 have m: "10 \<le> ?m" "?m \<le> 100" by linarith+
  have e: "?f + 1 - 2 = ?f - 1" by simp
  show ?thesis using m by (simp add: round_sig2_def Let_def e)
qed

lemma of_digit_char: "0 \<le> d \<Longrightarrow> d \<le> 9 \<Longrightarrow> (of_char (digit_char d) :: nat) = 48 + nat d"
  by (simp add: digit_char_def)

lemma digit_char_digit: "0 \<le> d \<Longrightarrow> d \<le> 9 \<Longrightarrow> is_digit (digit_char d)"
  by (simp add: is_digit_def of_digit_char)

lemma digit_char_not_zero: "1 \<le> d \<Longrightarrow> d \<le> 9 \<Longrightarrow> digit_char d \<noteq> CHR ''0''"
proof
  assume d: "1 \<le> d" "d \<le> 9" and "digit_char d = CHR ''0''"
  then have "(of_char (digit_char d) :: nat) = of_char (CHR ''0'')" by simp
  with d show False by (simp add: of_digit_char)
qed

lemma is_digit_not:
  "is_digit c \<Longrightarrow> c \<noteq> CHR ''e'' \<and> c \<noteq> CHR ''.'' \<and> c \<noteq> CHR '' '' \<and> c \<noteq> CHR ''+'' \<and> c \<noteq> CHR ''-''"
  by (auto simp: is_digit_def)

lemma nat_digits_digits: "0 \<le> n \<Longrightarrow> \<forall>c \<in> set (nat_digits n). is_digit c"
proof (induction n rule: nat_digits.induct)
  case (1 n)
  show ?case
  proof (cases "n < 10")
    case True
    then have "nat_digits n = [digit_char n]" by (subst nat_digits.simps) simp
    with True "1.prems" show ?thesis by (simp add: digit_char_digit)
  next
    case False
    then have e: "nat_digits n = nat_digits (n div 10) @ [digit_char (n mod 10)]"
      by (subst nat_digits.simps) simp
    have "0 \<le> n div 10" using "1.prems" by simp
    with "1.IH" False have "\<forall>c \<in> set (nat_digits (n div 10)). is_digit c" by simp
    moreover have "is_digit (digit_char (n mod 10))" by (simp add: digit_char_digit)
    ultimately show ?thesis by (simp add: e)
  qed
qed

lemma format_exp_chars:
  "\<forall>c \<in> set (format_exp e). is_digit c \<or> c = CHR ''+'' \<or> c = CHR ''-''"
proof -
  have "(0::int) \<le> \<bar>e\<bar>" by simp
  then have d: "\<forall>c \<in> set (nat_digits \<bar>e\<bar>). is_digit c" by (rule nat_digits_digits)
  have z: "is_digit (CHR ''0'')" by (simp add: is_digit_def)
  show ?thesis using d z by (auto simp: format_exp_def Let_def)
qed

lemma format_g2_pos_shape:
  assumes q: "0 < q"
  shows "\<exists>d1 frac. is_digit d1 \<and> d1 \<noteq> CHR ''0'' \<and> (frac = [] \<or> (\<exists>d2. frac = [d2] \<and> is_digit d2)) \<and>
     (format_g2_pos q = d1 # (if frac = [] then [] else CHR ''.'' # frac) @ ''e'' @
          format_exp (snd (round_sig2 q) - 1)
      \<or> format_g2_pos q = d1 # CHR ''.'' # (if frac = [] then ''0'' else frac)
      \<or> format_g2_pos q = ''0.'' @ replicate (nat (- snd (round_sig2 q))) (CHR ''0'') @ d1 # frac)"
proof -
  obtain m d where md: "round_sig2 q = (m, d)" by (cases "round_sig2 q")
  from round_sig2_bounds [OF q] md have m: "10 \<le> m" "m \<le> 99" by simp_all
  let ?d1 = "digit_char (m div 10)"
  let ?frac = "if m mod 10 = 0 then [] else [digit_char (m mod 10)]"
  from m have "1 \<le> m div 10" "m div 10 \<le> 9" by simp_all
  then have d1: "is_digit ?d1" "?d1 \<noteq> CHR ''0''"
    by (simp_all add: digit_char_digit digit_char_not_zero)
  have fr: "?frac = [] \<or> (\<exists>d2. ?frac = [d2] \<and> is_digit d2)"
    by (simp add: digit_char_digit)
  consider (sci) "d \<le> - 4 \<or> 1 < d" | (one) "d = 1" | (small) "- 4 < d" "d \<le> 0"
    by linarith
  then have "format_g2_pos q = ?d1 # (if ?frac = [] then [] else CHR ''.'' # ?frac) @ ''e'' @
          format_exp (snd (round_sig2 q) - 1)
      \<or> format_g2_pos q = ?d1 # CHR ''.'' # (if ?frac = [] then ''0'' else ?frac)
      \<or> format_g2_pos q = ''0.'' @ replicate (nat (- snd (round_sig2 q))) (CHR ''0'') @ ?d1 # ?frac"
  proof cases
    case sci
    then show ?thesis by (simp add: format_g2_pos_def md Let_def)
  next
    case one
    then show ?thesis by (simp add: format_g2_pos_def md Let_def)
  next
    case small
    then show ?thesis by (simp add: format_g2_pos_def md Let_def)
  qed
  with d1 fr show ?thesis by blast
qed

lemma format_g2_pos_no_space:
  assumes q: "0 < q"
  shows "CHR '' '' \<notin> set (format_g2_pos q)"
proof -
  from format_g2_pos_shape [OF q] obtain d1 frac where d1: "is_digit d1"
    and fr: "frac = [] \<or> (\<exists>d2. frac = [d2] \<and> is_digit d2)"
    and sh: "format_g2_pos q = d1 # (if frac = [] then [] else CHR ''.'' # frac) @ ''e'' @
          format_exp (snd (round_sig2 q) - 1)
      \<or> format_g2_pos q = d1 # CHR ''.'' # (if frac = [] then ''0'' else frac)
      \<or> format_g2_pos q = ''0.'' @ replicate (nat (- snd (round_sig2 q))) (CHR ''0'') @ d1 # frac"
    by blast
  from d1 have a: "CHR '' '' \<noteq> d1" by (auto simp: is_digit_def)
  have sp: "\<not> is_digit (CHR '' '')" by (simp add: is_digit_def)
  from fr sp have b: "CHR '' '' \<notin> set frac" by auto
  have c: "CHR '' '' \<notin> set (format_exp (snd (round_sig2 q) - 1))"
    using format_exp_chars [of "snd (round_sig2 q) - 1"] is_digit_not by fastforce
  from sh a b c show ?thesis by (auto split: if_splits)
qed

lemma format_g2_no_space: "CHR '' '' \<notin> set (format_g2 g)"
proof (cases g)
  case (Fin q)
  consider "q = 0" | "q < 0" | "0 < q" by linarith
  then show ?thesis
  proof cases
    case 1
    then show ?thesis by (simp add: Fin)
  next
    case 2
    then have "CHR '' '' \<notin> set (format_g2_pos (- q))" by (simp add: format_g2_pos_no_space)
    with 2 show ?thesis by (simp add: Fin)
  next
    case 3
    then have "CHR '' '' \<notin> set (format_g2_pos q)" by (simp add: format_g2_pos_no_space)
    with 3 show ?thesis by (simp add: Fin)
  qed
qed simp_all



lemma entries_keys:
  "map entry_of ss = map Inr es \<Longrightarrow> map fst es = map (\<lambda>s. join '' '' (butlast s)) ss"
proof (induction ss arbitrary: es)
  case Nil
  then show ?case by simp
next
  case (Cons s ss)
  then obtain e es' where es: "es = e # es'" and e: "entry_of s = Inr e"
    and r: "map entry_of ss = map Inr es'" by (cases es) auto
  obtain k v where kv: "e = (k, v)" by (cases e)
  with e have "k = join '' '' (butlast s)" using entry_of_key by blast
  with Cons.IH [OF r] es kv show ?case by simp
qed

lemma dict_of_keys:
  assumes "dict_of ss [] = Inr d"
  shows "map fst d = first_occurrences (map (\<lambda>s. join '' '' (butlast s)) ss)"
proof -
  from dict_of_entries [OF assms] obtain es where es: "map entry_of ss = map Inr es"
    and d: "d = fold (\<lambda>(k, v). AList.update k v) es []" by blast
  have "map fst d = rev (remdups (rev (map fst es)))"
    using fold_update_keys [of es "[]"] by (simp add: d)
  then show ?thesis using entries_keys [OF es] by (simp add: first_occurrences_def)
qed

lemma into_dict_cong: "fs a = fs' a' \<Longrightarrow> into_dict fs a = into_dict fs' a'"
  by (simp add: into_dict_def)

lemma into_dict_keys:
  assumes "fs name = Some body" and "into_dict fs name = Inr d"
  shows "map fst d = first_occurrences (line_keys body)"
proof -
  from assms have "dict_of (map split (readlines body)) [] = Inr d" by (simp add: into_dict_def)
  from dict_of_keys [OF this] show ?thesis by (simp add: line_keys_def comp_def)
qed

lemma growth_loop_lines:
  assumes "line \<in> set (growth_loop older newer [])"
  shows "\<exists>dir sz. (dir, sz) \<in> set newer \<and> fgt0 (fsub sz (get older dir (Fin 0))) \<and>
     line = print_line dir (fsub sz (get older dir (Fin 0)))"
  using assms growth_loop_eq [of older newer "[]"] by auto

lemma main_lines:
  assumes "line \<in> set (stdout (main fs argv))"
  shows "\<exists>older newer dir sz. into_dict fs (argv ! 1) = Inr older \<and>
     into_dict fs (argv ! 2) = Inr newer \<and> (dir, sz) \<in> set newer \<and>
     fgt0 (fsub sz (get older dir (Fin 0))) \<and>
     line = print_line dir (fsub sz (get older dir (Fin 0)))"
proof (cases "length argv = 3")
  case True
  then obtain p a b where argv: "argv = [p, a, b]" using length_three by blast
  show ?thesis
  proof (cases "into_dict fs a")
    case (Inl e)
    with assms show ?thesis by (simp add: argv main_three)
  next
    case older: (Inr older)
    show ?thesis
    proof (cases "into_dict fs b")
      case (Inl e)
      with assms older show ?thesis by (simp add: argv main_three)
    next
      case (Inr newer)
      with assms older have "line \<in> set (growth_loop older newer [])"
        by (simp add: argv main_three)
      from growth_loop_lines [OF this] older Inr show ?thesis by (simp add: argv)
    qed
  qed
next
  case False
  with assms show ?thesis unfolding main_def by simp
qed

lemma append_Cons_after:
  assumes "x \<notin> set a" and "x \<notin> set a'" and "a @ x # b = a' @ x # b'"
  shows "b = b'"
  using assms
proof (induction a arbitrary: a')
  case Nil
  then show ?case by (cases a') auto
next
  case (Cons y a)
  show ?case
  proof (cases a')
    case Nil
    with Cons.prems show ?thesis by auto
  next
    case (Cons z zs)
    with Cons.prems have "x \<notin> set a" "x \<notin> set zs" "a @ x # b = zs @ x # b'" by auto
    then show ?thesis by (rule Cons.IH)
  qed
qed

lemma print_line_inj:
  assumes "print_line d g = print_line d' g'"
  shows "d = d'"
proof -
  let ?sp = "CHR '' ''"
  from assms have "rev (d @ ?sp # format_g2 g) = rev (d' @ ?sp # format_g2 g')"
    by (simp add: print_line_def)
  then have e: "rev (format_g2 g) @ ?sp # rev d = rev (format_g2 g') @ ?sp # rev d'" by simp
  have a: "?sp \<notin> set (rev (format_g2 g))" and b: "?sp \<notin> set (rev (format_g2 g'))"
    using format_g2_no_space by simp_all
  from a b e have "rev d = rev d'" by (rule append_Cons_after)
  then show ?thesis by simp
qed

text \<open>
  C4: no line is printed for a directory that is not a key of the newer dictionary,
  that is, that is the key of no line of the newer report, whether or not the older
  report has it; the lines of the other directories are printed.
\<close>

theorem C4_old_only_never_printed:
  "(into_dict fs (argv ! 2) = Inr newer \<longrightarrow> z \<notin> fst ` set newer \<longrightarrow>
      print_line z g \<notin> set (stdout (main fs argv))) \<and>
   (fs (argv ! 2) = Some body \<longrightarrow> z \<notin> set (line_keys body) \<longrightarrow>
      print_line z g \<notin> set (stdout (main fs argv))) \<and>
   stdout (main (two_files ''z 5'' []) [''prog'', ''old'', ''new'']) = [] \<and>
   stdout (main (two_files (''z 5'' @ [LF] @ ''x 1'' @ [LF]) (''x 3'' @ [LF]))
      [''prog'', ''old'', ''new'']) = [''x 2.0'']"
proof -
  have k: "z \<in> fst ` set newer'"
    if mem: "print_line z g \<in> set (stdout (main fs argv))"
      and n: "into_dict fs (argv ! 2) = Inr newer'" for newer'
  proof -
    from main_lines [OF mem] n obtain older dir sz where d: "(dir, sz) \<in> set newer'"
      and e: "print_line z g = print_line dir (fsub sz (get older dir (Fin 0)))" by auto
    from e have "z = dir" by (rule print_line_inj)
    with d show ?thesis by force
  qed
  have a: "into_dict fs (argv ! 2) = Inr newer \<longrightarrow> z \<notin> fst ` set newer \<longrightarrow>
      print_line z g \<notin> set (stdout (main fs argv))"
    using k by blast
  have b: "fs (argv ! 2) = Some body \<longrightarrow> z \<notin> set (line_keys body) \<longrightarrow>
      print_line z g \<notin> set (stdout (main fs argv))"
  proof (intro impI notI)
    assume f: "fs (argv ! 2) = Some body" and z: "z \<notin> set (line_keys body)"
      and mem: "print_line z g \<in> set (stdout (main fs argv))"
    from main_lines [OF mem] obtain newer' where n: "into_dict fs (argv ! 2) = Inr newer'"
      by blast
    from into_dict_keys [OF f n] have "set (map fst newer') = set (line_keys body)"
      by (simp add: first_occurrences_def)
    moreover from k [OF mem n] have "z \<in> set (map fst newer')" by simp
    ultimately show False using z by simp
  qed
  have c: "stdout (main (two_files ''z 5'' []) [''prog'', ''old'', ''new'']) = []"
    by code_simp
  have d: "stdout (main (two_files (''z 5'' @ [LF] @ ''x 1'' @ [LF]) (''x 3'' @ [LF]))
      [''prog'', ''old'', ''new'']) = [''x 2.0'']"
    by code_simp
  show ?thesis by (intro conjI a b c d)
qed

theorem C4_old_only_never_printed_witness:
  "''z 5.0'' \<notin> set (stdout (main (two_files (''z 5'' @ [LF] @ ''x 1'' @ [LF]) (''x 3'' @ [LF]))
      [''prog'', ''old'', ''new''])) \<and>
   ''z 4.0'' \<notin> set (stdout (main (two_files (''z 5'' @ [LF] @ ''x 1'' @ [LF]) (''x 3'' @ [LF]))
      [''prog'', ''old'', ''new'']))"
proof -
  let ?fs = "two_files (''z 5'' @ [LF] @ ''x 1'' @ [LF]) (''x 3'' @ [LF])"
  let ?argv = "[''prog'', ''old'', ''new'']"
  have n: "into_dict ?fs (?argv ! 2) = Inr [(''x'', Fin 3)]" by code_simp
  have z: "''z'' \<notin> fst ` set [(''x'', Fin 3)]" by simp
  have f: "?fs (?argv ! 2) = Some (''x 3'' @ [LF])" by (simp add: two_files_def)
  have lk: "line_keys (''x 3'' @ [LF]) = [''x'']" by code_simp
  have z': "''z'' \<notin> set (line_keys (''x 3'' @ [LF]))" unfolding lk by simp
  have p: "print_line ''z'' (Fin 5) = ''z 5.0''" by code_simp
  have p': "print_line ''z'' (Fin 4) = ''z 4.0''" by code_simp
  from C4_old_only_never_printed [of ?fs ?argv "[(''x'', Fin 3)]" "''z''" "Fin 5", THEN conjunct1]
    n z
  have "print_line ''z'' (Fin 5) \<notin> set (stdout (main ?fs ?argv))" by blast
  then have a: "''z 5.0'' \<notin> set (stdout (main ?fs ?argv))" by (simp only: p not_False_eq_True)
  from C4_old_only_never_printed [of ?fs ?argv _ "''z''" "Fin 4" "''x 3'' @ [LF]",
      THEN conjunct2, THEN conjunct1] f z'
  have "print_line ''z'' (Fin 4) \<notin> set (stdout (main ?fs ?argv))" by blast
  then have b: "''z 4.0'' \<notin> set (stdout (main ?fs ?argv))" by (simp only: p' not_False_eq_True)
  from a b show ?thesis by (rule conjI)
qed




subsection \<open>The order of the output\<close>

text \<open>
  C10 as stated fails: in the report with the lines \<open>a 1\<close>, \<open>b 2\<close>, \<open>a 3\<close> the last
  occurrences of the keys are in the order \<open>b\<close>, \<open>a\<close>, and the run prints \<open>a\<close> first.
\<close>

theorem C10_order_counterexample:
  "stdout (main (two_files [] (''a 1'' @ [LF] @ ''b 2'' @ [LF] @ ''a 3'' @ [LF]))
      [''prog'', ''old'', ''new'']) = [''a 3.0'', ''b 2.0''] \<and>
   last_occurrences (line_keys (''a 1'' @ [LF] @ ''b 2'' @ [LF] @ ''a 3'' @ [LF])) = [''b'', ''a'']"
  by code_simp

text \<open>
  C10, amended: the run is a function of the texts of the two reports alone (whatever
  the names of the files and of the script); when the lines of both reports parse, the
  keys of the newer dictionary are in the order of their first occurrences in the newer
  report, and the printed lines are those of the grown directories in that order.
\<close>

theorem C10_deterministic:
  "(fs a = fs' a' \<longrightarrow> fs b = fs' b' \<longrightarrow> main fs [p, a, b] = main fs' [p', a', b']) \<and>
   (fs a = Some old_body \<longrightarrow> fs b = Some new_body \<longrightarrow>
      (\<forall>l \<in> set (readlines old_body @ readlines new_body). \<exists>kv. entry_of (split l) = Inr kv) \<longrightarrow>
      (\<exists>older newer. into_dict fs a = Inr older \<and> into_dict fs b = Inr newer \<and>
         map fst newer = first_occurrences (line_keys new_body) \<and>
         stdout (main fs [p, a, b]) =
           map (\<lambda>(dir, sz). print_line dir (fsub sz (get older dir (Fin 0))))
               (filter (\<lambda>(dir, sz). fgt0 (fsub sz (get older dir (Fin 0)))) newer)))"
proof -
  have x: "fs a = fs' a' \<longrightarrow> fs b = fs' b' \<longrightarrow> main fs [p, a, b] = main fs' [p', a', b']"
  proof (intro impI)
    assume "fs a = fs' a'" and "fs b = fs' b'"
    then have "into_dict fs a = into_dict fs' a'" and "into_dict fs b = into_dict fs' b'"
      by (simp_all add: into_dict_def)
    then show "main fs [p, a, b] = main fs' [p', a', b']" by (simp only: main_three)
  qed
  have y: "fs a = Some old_body \<longrightarrow> fs b = Some new_body \<longrightarrow>
      (\<forall>l \<in> set (readlines old_body @ readlines new_body). \<exists>kv. entry_of (split l) = Inr kv) \<longrightarrow>
      (\<exists>older newer. into_dict fs a = Inr older \<and> into_dict fs b = Inr newer \<and>
         map fst newer = first_occurrences (line_keys new_body) \<and>
         stdout (main fs [p, a, b]) =
           map (\<lambda>(dir, sz). print_line dir (fsub sz (get older dir (Fin 0))))
               (filter (\<lambda>(dir, sz). fgt0 (fsub sz (get older dir (Fin 0)))) newer))"
  proof (intro impI)
    assume fa: "fs a = Some old_body" and fb: "fs b = Some new_body"
      and every: "\<forall>l \<in> set (readlines old_body @ readlines new_body).
        \<exists>kv. entry_of (split l) = Inr kv"
    from every have ea: "\<forall>l \<in> set (readlines old_body). \<exists>kv. entry_of (split l) = Inr kv"
      and eb: "\<forall>l \<in> set (readlines new_body). \<exists>kv. entry_of (split l) = Inr kv"
      by simp_all
    from into_dict_succeeds [of fs a old_body, OF fa ea]
    obtain older where o: "into_dict fs a = Inr older" by blast
    from into_dict_succeeds [of fs b new_body, OF fb eb]
    obtain newer where n: "into_dict fs b = Inr newer" by blast
    from into_dict_keys [OF fb n]
    have k: "map fst newer = first_occurrences (line_keys new_body)" .
    have s: "stdout (main fs [p, a, b]) =
           map (\<lambda>(dir, sz). print_line dir (fsub sz (get older dir (Fin 0))))
               (filter (\<lambda>(dir, sz). fgt0 (fsub sz (get older dir (Fin 0)))) newer)"
      using growth_loop_eq [of older newer "[]"] o n by (simp add: main_three)
    from o n k s show "\<exists>older newer. into_dict fs a = Inr older \<and> into_dict fs b = Inr newer \<and>
         map fst newer = first_occurrences (line_keys new_body) \<and>
         stdout (main fs [p, a, b]) =
           map (\<lambda>(dir, sz). print_line dir (fsub sz (get older dir (Fin 0))))
               (filter (\<lambda>(dir, sz). fgt0 (fsub sz (get older dir (Fin 0)))) newer)"
      by blast
  qed
  show ?thesis by (intro conjI x y)
qed

theorem C10_deterministic_witness:
  "main (two_files (''b 1'' @ [LF]) (''a 1'' @ [LF] @ ''b 2'' @ [LF] @ ''a 3'' @ [LF]))
       [''prog'', ''old'', ''new''] =
     main (two_files (''a 1'' @ [LF] @ ''b 2'' @ [LF] @ ''a 3'' @ [LF]) (''b 1'' @ [LF]))
       [''other'', ''new'', ''old''] \<and>
   (\<exists>older newer.
      into_dict (two_files (''b 1'' @ [LF]) (''a 1'' @ [LF] @ ''b 2'' @ [LF] @ ''a 3'' @ [LF])) ''old'' = Inr older \<and>
      into_dict (two_files (''b 1'' @ [LF]) (''a 1'' @ [LF] @ ''b 2'' @ [LF] @ ''a 3'' @ [LF])) ''new'' = Inr newer \<and>
      map fst newer = first_occurrences (line_keys (''a 1'' @ [LF] @ ''b 2'' @ [LF] @ ''a 3'' @ [LF])) \<and>
      stdout (main (two_files (''b 1'' @ [LF]) (''a 1'' @ [LF] @ ''b 2'' @ [LF] @ ''a 3'' @ [LF]))
          [''prog'', ''old'', ''new'']) =
        map (\<lambda>(dir, sz). print_line dir (fsub sz (get older dir (Fin 0))))
            (filter (\<lambda>(dir, sz). fgt0 (fsub sz (get older dir (Fin 0)))) newer)) \<and>
   first_occurrences (line_keys (''a 1'' @ [LF] @ ''b 2'' @ [LF] @ ''a 3'' @ [LF])) = [''a'', ''b''] \<and>
   stdout (main (two_files (''b 1'' @ [LF]) (''a 1'' @ [LF] @ ''b 2'' @ [LF] @ ''a 3'' @ [LF]))
       [''prog'', ''old'', ''new'']) = [''a 3.0'', ''b 1.0'']"
proof -
  let ?old = "''b 1'' @ [LF]"
  let ?body = "''a 1'' @ [LF] @ ''b 2'' @ [LF] @ ''a 3'' @ [LF]"
  let ?fs = "two_files ?old ?body"
  let ?fs' = "two_files ?body ?old"
  have o: "?fs ''old'' = ?fs' ''new''" by (simp add: two_files_def)
  have n: "?fs ''new'' = ?fs' ''old''" by (simp add: two_files_def)
  have fa: "?fs ''old'' = Some ?old" by (simp add: two_files_def)
  have fb: "?fs ''new'' = Some ?body" by (simp add: two_files_def)
  have ra: "readlines ?old = [''b 1'' @ [LF]]" by code_simp
  have rb: "readlines ?body = [''a 1'' @ [LF], ''b 2'' @ [LF], ''a 3'' @ [LF]]" by code_simp
  have e1: "entry_of (split (''b 1'' @ [LF])) = Inr (''b'', Fin 1)" by code_simp
  have e2: "entry_of (split (''a 1'' @ [LF])) = Inr (''a'', Fin 1)" by code_simp
  have e3: "entry_of (split (''b 2'' @ [LF])) = Inr (''b'', Fin 2)" by code_simp
  have e4: "entry_of (split (''a 3'' @ [LF])) = Inr (''a'', Fin 3)" by code_simp
  have every: "\<forall>l \<in> set ([''b 1'' @ [LF]] @ [''a 1'' @ [LF], ''b 2'' @ [LF], ''a 3'' @ [LF]]).
      \<exists>kv. entry_of (split l) = Inr kv"
    using e1 e2 e3 e4 by simp
  have all: "\<forall>l \<in> set (readlines ?old @ readlines ?body). \<exists>kv. entry_of (split l) = Inr kv"
    unfolding ra rb by (rule every)
  have k: "first_occurrences (line_keys ?body) = [''a'', ''b'']" by code_simp
  have s: "stdout (main ?fs [''prog'', ''old'', ''new'']) = [''a 3.0'', ''b 1.0'']" by code_simp
  note t = C10_deterministic [of ?fs "''old''" ?fs' "''new''" "''new''" "''old''" "''prog''" "''other''"
      ?old ?body]
  from t o n have a: "main ?fs [''prog'', ''old'', ''new''] = main ?fs' [''other'', ''new'', ''old'']"
    by blast
  from t fa fb all have b: "\<exists>older newer.
      into_dict ?fs ''old'' = Inr older \<and> into_dict ?fs ''new'' = Inr newer \<and>
      map fst newer = first_occurrences (line_keys ?body) \<and>
      stdout (main ?fs [''prog'', ''old'', ''new'']) =
        map (\<lambda>(dir, sz). print_line dir (fsub sz (get older dir (Fin 0))))
            (filter (\<lambda>(dir, sz). fgt0 (fsub sz (get older dir (Fin 0)))) newer)"
    by (rule conjunct2 [THEN mp, THEN mp, THEN mp])
  from a b k s show ?thesis by (intro conjI)
qed

end
